theory Spec2Isabelle
  imports Complex_Main "HOL-Library.AList"
begin

section \<open>Costs\<close>

text \<open>
  The resharding costs of \<^verbatim>\<open>cost_graph.py\<close> are Python floats, and the merge-map loop
  starts from \<^verbatim>\<open>math.inf\<close>. A cost is modelled as a real number or the value
  \<open>PInf\<close> (\<^verbatim>\<open>math.inf\<close>): rounding is idealised, NaN and negative infinity are not
  represented. Addition and comparison are those of Python on such values:
  \<^verbatim>\<open>inf + x == inf\<close>, \<^verbatim>\<open>x < inf\<close> for every finite x, \<^verbatim>\<open>inf < inf\<close> is false.
\<close>

datatype cost = Fin real | PInf

instantiation cost :: "{comm_monoid_add, linorder}"
begin

definition zero_cost :: cost where
  "zero_cost = Fin 0"

definition plus_cost :: "cost \<Rightarrow> cost \<Rightarrow> cost" where
  "plus_cost x y =
     (case x of PInf \<Rightarrow> PInf | Fin a \<Rightarrow> (case y of PInf \<Rightarrow> PInf | Fin b \<Rightarrow> Fin (a + b)))"

definition less_cost :: "cost \<Rightarrow> cost \<Rightarrow> bool" where
  "less_cost x y =
     (case x of PInf \<Rightarrow> False | Fin a \<Rightarrow> (case y of PInf \<Rightarrow> True | Fin b \<Rightarrow> a < b))"

definition less_eq_cost :: "cost \<Rightarrow> cost \<Rightarrow> bool" where
  "less_eq_cost x y =
     (case y of PInf \<Rightarrow> True | Fin b \<Rightarrow> (case x of PInf \<Rightarrow> False | Fin a \<Rightarrow> a \<le> b))"

instance
  by standard
    (auto simp: zero_cost_def plus_cost_def less_cost_def less_eq_cost_def split: cost.splits)

end

section \<open>Data model\<close>

text \<open>
  A node of the traced graph is identified by a number. A sharding strategy is modelled by
  its \<^verbatim>\<open>resharding_costs\<close> dictionary (predecessor node to the list of costs, one per
  strategy of the predecessor), the only attribute \<^verbatim>\<open>CostGraph\<close> reads. A cost matrix
  of \<^verbatim>\<open>edge_costs\<close> is a dictionary keyed by index pairs; the keys are integers because
  \<^verbatim>\<open>merge_node\<close> looks entries up under a merge-map value, which may be \<open>-1\<close>.
\<close>

datatype error = KeyError | ValueError | IndexError | RecursionError

type_synonym node = nat
type_synonym strategy = "node \<rightharpoonup> cost list"
type_synonym matrix = "(int \<times> int) \<rightharpoonup> cost"

text \<open>
  The object state of \<^verbatim>\<open>CostGraph\<close> together with the node attributes it maintains.
  \<open>strategies_vector\<close>, \<open>parents\<close> and \<open>children\<close> are the attributes of the nodes; the
  dictionaries \<open>extra_node_costs\<close>, \<open>following_dict\<close> and \<open>edge_costs\<close> are association
  lists in insertion order, read with \<open>map_of\<close>, written with \<open>AList.update\<close> and popped
  with \<open>AList.delete\<close>. The lists \<open>parents\<close> and \<open>children\<close> are mutated in place by the
  source; each node has list objects of its own (the constructor attaches the predecessor
  and successor lists of the node's strategies vector), so a function from nodes to lists
  carries the same information. The strategies vector of a node is indexed like a Python
  list.
\<close>

record cost_graph =
  strategies_vector :: "node \<Rightarrow> strategy list"
  node_lens :: "node \<rightharpoonup> nat"
  extra_node_costs :: "(node \<times> cost list) list"
  following_dict :: "(node \<times> node) list"
  edge_costs :: "((node \<times> node) \<times> matrix) list"
  parents :: "node \<Rightarrow> node list"
  children :: "node \<Rightarrow> node list"
  merge_pair :: "(node \<times> node) list"
  simplify :: bool

section \<open>Python list and dictionary access\<close>

text \<open>\<^verbatim>\<open>xs[i]\<close>: a negative index counts from the end, out of range raises IndexError.\<close>

definition list_getitem :: "'a list \<Rightarrow> int \<Rightarrow> error + 'a" where
  "list_getitem xs i =
     (if 0 \<le> i \<and> i < int (length xs) then Inr (xs ! nat i)
      else if i < 0 \<and> - int (length xs) \<le> i then Inr (xs ! nat (int (length xs) + i))
      else Inl IndexError)"

text \<open>\<^verbatim>\<open>xs[i] = v\<close> with the same index convention.\<close>

definition list_setitem :: "'a list \<Rightarrow> int \<Rightarrow> 'a \<Rightarrow> error + 'a list" where
  "list_setitem xs i v =
     (if 0 \<le> i \<and> i < int (length xs) then Inr (xs[nat i := v])
      else if i < 0 \<and> - int (length xs) \<le> i then Inr (xs[nat (int (length xs) + i) := v])
      else Inl IndexError)"

text \<open>\<^verbatim>\<open>d[k]\<close> on a dictionary.\<close>

definition dict_getitem :: "('k \<times> 'v) list \<Rightarrow> 'k \<Rightarrow> error + 'v" where
  "dict_getitem d k = (case map_of d k of None \<Rightarrow> Inl KeyError | Some v \<Rightarrow> Inr v)"

text \<open>\<^verbatim>\<open>xs.remove(x)\<close>: removes the first occurrence, ValueError when there is none.\<close>

definition list_remove :: "'a list \<Rightarrow> 'a \<Rightarrow> error + 'a list" where
  "list_remove xs x = (if x \<in> set xs then Inr (remove1 x xs) else Inl ValueError)"

text \<open>\<^verbatim>\<open>strategy.resharding_costs[src_node][src_index]\<close>\<close>

definition resharding_cost :: "strategy \<Rightarrow> node \<Rightarrow> nat \<Rightarrow> error + cost" where
  "resharding_cost st src_node src_index =
     (case st src_node of
        None \<Rightarrow> Inl KeyError
      | Some cs \<Rightarrow> list_getitem cs (int src_index))"

section \<open>\<^verbatim>\<open>CostGraph.__init__\<close> and \<^verbatim>\<open>CostGraph._build_cost_graph\<close>\<close>

text \<open>
  The class \<^verbatim>\<open>StrategiesVector\<close> is not part of the sources at hand. Of one element of
  \<^verbatim>\<open>leaf_strategies\<close> the constructor reads the node, the strategies (by index and by
  \<^verbatim>\<open>len\<close>), the predecessor and successor lists and the result of \<^verbatim>\<open>check_merge()\<close>;
  these are the fields of the record below. The attribute \<^verbatim>\<open>strategies_vector\<close> of the
  nodes is a parameter of the constructor.
\<close>

record leaf_strategy =
  leaf_node :: node
  leaf_strategies :: "strategy list"
  predecessor_nodes :: "node list"
  successor_nodes :: "node list"
  check_merge :: bool

text \<open>
  The nested loops \<^verbatim>\<open>for i in range(len(strategies_vector))\<close>,
  \<^verbatim>\<open>for j in range(len(src_node.strategies_vector))\<close> over the index pairs \<open>(i, j)\<close>,
  storing \<^verbatim>\<open>edge_cost[(j, i)]\<close>.
\<close>

fun build_edge_cost :: "strategy list \<Rightarrow> node \<Rightarrow> (nat \<times> nat) list \<Rightarrow> matrix \<Rightarrow> error + matrix" where
  "build_edge_cost strategies src_node [] edge_cost = Inr edge_cost"
| "build_edge_cost strategies src_node ((i, j) # rest) edge_cost =
     (case list_getitem strategies (int i) of
        Inl e \<Rightarrow> Inl e
      | Inr st \<Rightarrow>
          (case resharding_cost st src_node j of
             Inl e \<Rightarrow> Inl e
           | Inr c \<Rightarrow>
               build_edge_cost strategies src_node rest (edge_cost((int j, int i) \<mapsto> c))))"

text \<open>The loop \<^verbatim>\<open>for src_node in strategies_vector.predecessor_nodes\<close>.\<close>

fun build_edges :: "(node \<Rightarrow> strategy list) \<Rightarrow> leaf_strategy \<Rightarrow> node list
    \<Rightarrow> ((node \<times> node) \<times> matrix) list \<Rightarrow> error + ((node \<times> node) \<times> matrix) list" where
  "build_edges sv v [] ec = Inr ec"
| "build_edges sv v (src_node # rest) ec =
     (case build_edge_cost (leaf_strategies v) src_node
             (List.product [0..<length (leaf_strategies v)] [0..<length (sv src_node)])
             Map.empty of
        Inl e \<Rightarrow> Inl e
      | Inr edge_cost \<Rightarrow>
          build_edges sv v rest (AList.update (src_node, leaf_node v) edge_cost ec))"

text \<open>The loop \<^verbatim>\<open>for strategies_vector in self.leaf_strategies\<close>.\<close>

fun build_cost_graph :: "leaf_strategy list \<Rightarrow> cost_graph \<Rightarrow> error + cost_graph" where
  "build_cost_graph [] s = Inr s"
| "build_cost_graph (v # rest) s =
     (case build_edges (strategies_vector s) v (predecessor_nodes v) (edge_costs s) of
        Inl e \<Rightarrow> Inl e
      | Inr ec \<Rightarrow>
          (let s1 = s\<lparr>edge_costs := ec,
                      parents := (parents s)(leaf_node v := predecessor_nodes v),
                      children := (children s)(leaf_node v := successor_nodes v)\<rparr>;
               s2 = (if simplify s1 \<and> check_merge v
                     then s1\<lparr>merge_pair :=
                            merge_pair s1 @ map (\<lambda>followed_node. (followed_node, leaf_node v))
                                              (predecessor_nodes v)\<rparr>
                     else s1)
           in build_cost_graph rest s2))"

text \<open>
  The constructor. \<^verbatim>\<open>node_lens\<close> is the dictionary comprehension over
  \<^verbatim>\<open>leaf_strategies\<close> (a later element with the same node wins). Nodes that were given
  no \<^verbatim>\<open>parents\<close> and \<^verbatim>\<open>children\<close> attribute have the empty list here.
\<close>

definition new_cost_graph :: "(node \<Rightarrow> strategy list) \<Rightarrow> leaf_strategy list \<Rightarrow> bool
    \<Rightarrow> error + cost_graph" where
  "new_cost_graph sv leaves simp_flag =
     build_cost_graph leaves
       \<lparr>strategies_vector = sv,
        node_lens = map_of (rev (map (\<lambda>v. (leaf_node v, length (leaf_strategies v))) leaves)),
        extra_node_costs = [],
        following_dict = [],
        edge_costs = [],
        parents = (\<lambda>n. []),
        children = (\<lambda>n. []),
        merge_pair = [],
        simplify = simp_flag\<rparr>"

section \<open>\<^verbatim>\<open>CostGraph.get_edge_cost\<close>\<close>

definition get_edge_cost :: "cost_graph \<Rightarrow> node \<Rightarrow> node \<Rightarrow> error + matrix" where
  "get_edge_cost s src_node dst_node = dict_getitem (edge_costs s) (src_node, dst_node)"

section \<open>\<^verbatim>\<open>CostGraph.merge_node\<close>\<close>

subsection \<open>Building the merge map\<close>

text \<open>
  The inner loop over \<^verbatim>\<open>enumerate(dst_node.strategies_vector)\<close>: the strategies still
  to visit, the index of the first of them, and the running \<^verbatim>\<open>min_cost\<close> and
  \<^verbatim>\<open>lowest_cost_index\<close>.
\<close>

fun lowest_cost :: "strategy list \<Rightarrow> node \<Rightarrow> nat \<Rightarrow> nat \<Rightarrow> cost \<Rightarrow> int \<Rightarrow> error + int" where
  "lowest_cost [] src_node src_index dst_index min_cost lowest_cost_index = Inr lowest_cost_index"
| "lowest_cost (dst_strategy # rest) src_node src_index dst_index min_cost lowest_cost_index =
     (case resharding_cost dst_strategy src_node src_index of
        Inl e \<Rightarrow> Inl e
      | Inr c \<Rightarrow>
          if c < min_cost
          then lowest_cost rest src_node src_index (Suc dst_index) c (int dst_index)
          else lowest_cost rest src_node src_index (Suc dst_index) min_cost lowest_cost_index)"

text \<open>
  The outer loop over the strategy indices of the source node. The merge map has the keys
  \<open>0, \<dots>, len(src_node.strategies_vector) - 1\<close> and is kept as the list of its values.
\<close>

fun build_merge_map :: "strategy list \<Rightarrow> node \<Rightarrow> nat list \<Rightarrow> error + int list" where
  "build_merge_map dst_strategies src_node [] = Inr []"
| "build_merge_map dst_strategies src_node (src_index # rest) =
     (case lowest_cost dst_strategies src_node src_index 0 PInf (- 1) of
        Inl e \<Rightarrow> Inl e
      | Inr k \<Rightarrow>
          (case build_merge_map dst_strategies src_node rest of
             Inl e \<Rightarrow> Inl e
           | Inr ks \<Rightarrow> Inr (k # ks)))"

text \<open>\<^verbatim>\<open>merge_map[i]\<close>: the map is a dictionary, a missing key raises KeyError.\<close>

definition merge_map_getitem :: "int list \<Rightarrow> nat \<Rightarrow> error + int" where
  "merge_map_getitem merge_map i =
     (if i < length merge_map then Inr (merge_map ! i) else Inl KeyError)"

subsection \<open>Extra node costs of the source node\<close>

text \<open>
  \<^verbatim>\<open>self.extra_node_costs[n][i] += v\<close>: the entry is read, then written back.
\<close>

definition extra_add :: "(node \<times> cost list) list \<Rightarrow> node \<Rightarrow> int \<Rightarrow> cost
    \<Rightarrow> error + (node \<times> cost list) list" where
  "extra_add extra n i v =
     (case dict_getitem extra n of
        Inl e \<Rightarrow> Inl e
      | Inr row \<Rightarrow>
          (case list_getitem row i of
             Inl e \<Rightarrow> Inl e
           | Inr old \<Rightarrow>
               (case list_setitem row i (old + v) of
                  Inl e \<Rightarrow> Inl e
                | Inr row' \<Rightarrow> Inr (AList.update n row' extra))))"

text \<open>
  The loop over \<^verbatim>\<open>enumerate(src_node.strategies_vector)\<close> that fills
  \<^verbatim>\<open>extra_node_costs[src_node]\<close>. The table is threaded through the loop, so that
  \<^verbatim>\<open>extra_node_costs[dst_node]\<close> is read from the table as it is at that moment.
\<close>

fun accrue_extra :: "strategy list \<Rightarrow> node \<Rightarrow> node \<Rightarrow> int list \<Rightarrow> nat list
    \<Rightarrow> (node \<times> cost list) list \<Rightarrow> error + (node \<times> cost list) list" where
  "accrue_extra dst_strategies src_node dst_node merge_map [] extra = Inr extra"
| "accrue_extra dst_strategies src_node dst_node merge_map (src_index # rest) extra =
     (case merge_map_getitem merge_map src_index of
        Inl e \<Rightarrow> Inl e
      | Inr target_strate_index \<Rightarrow>
     (case list_getitem dst_strategies target_strate_index of
        Inl e \<Rightarrow> Inl e
      | Inr target_strategy \<Rightarrow>
     (case resharding_cost target_strategy src_node src_index of
        Inl e \<Rightarrow> Inl e
      | Inr c \<Rightarrow>
     (case extra_add extra src_node (int src_index) c of
        Inl e \<Rightarrow> Inl e
      | Inr extra1 \<Rightarrow>
          (case map_of extra1 dst_node of
             None \<Rightarrow> accrue_extra dst_strategies src_node dst_node merge_map rest extra1
           | Some dst_row \<Rightarrow>
               (case list_getitem dst_row target_strate_index of
                  Inl e \<Rightarrow> Inl e
                | Inr d \<Rightarrow>
                    (case extra_add extra1 src_node (int src_index) d of
                       Inl e \<Rightarrow> Inl e
                     | Inr extra2 \<Rightarrow>
                         accrue_extra dst_strategies src_node dst_node merge_map rest extra2)))))))"

subsection \<open>New node pairs\<close>

text \<open>
  The two nested \<^verbatim>\<open>range\<close> loops that fill the local \<^verbatim>\<open>edge_cost\<close> for one child,
  over the index pairs in loop order. \<^verbatim>\<open>self.edge_costs[old_node_pair]\<close> is looked up
  inside the loop body.
\<close>

fun derive_edge_cost :: "((node \<times> node) \<times> matrix) list \<Rightarrow> node \<times> node \<Rightarrow> int list
    \<Rightarrow> (nat \<times> nat) list \<Rightarrow> matrix \<Rightarrow> error + matrix" where
  "derive_edge_cost ec old_node_pair merge_map [] edge_cost = Inr edge_cost"
| "derive_edge_cost ec old_node_pair merge_map ((i, j) # rest) edge_cost =
     (case merge_map_getitem merge_map i of
        Inl e \<Rightarrow> Inl e
      | Inr dst_strate_index \<Rightarrow>
     (case dict_getitem ec old_node_pair of
        Inl e \<Rightarrow> Inl e
      | Inr old \<Rightarrow>
     (case old (dst_strate_index, int j) of
        None \<Rightarrow> Inl KeyError
      | Some v \<Rightarrow>
          derive_edge_cost ec old_node_pair merge_map rest
            (edge_cost((int i, int j) \<mapsto> v)))))"

text \<open>
  The index pairs visited by \<^verbatim>\<open>for i in range(node_lens[src_node])\<close> and, inside it,
  \<^verbatim>\<open>for j in range(node_lens[child_node])\<close>. The inner length is looked up once per
  \<open>i\<close>, so a child missing from \<^verbatim>\<open>node_lens\<close> raises only when the outer range is
  not empty.
\<close>

definition index_pairs :: "(node \<rightharpoonup> nat) \<Rightarrow> node \<Rightarrow> node \<Rightarrow> error + (nat \<times> nat) list" where
  "index_pairs lens src_node child_node =
     (case lens src_node of
        None \<Rightarrow> Inl KeyError
      | Some n \<Rightarrow>
          if n = 0 then Inr []
          else (case lens child_node of
                  None \<Rightarrow> Inl KeyError
                | Some m \<Rightarrow> Inr (List.product [0..<n] [0..<m])))"

text \<open>
  The loop \<^verbatim>\<open>for child_node in dst_node.children\<close> of the section ``add new node pair to
  cost graph''. A child whose pair \<^verbatim>\<open>(src_node, child_node)\<close> is already a key is skipped
  by the \<^verbatim>\<open>continue\<close>. After the \<^verbatim>\<open>continue\<close> the source tests the same membership
  again, with \<^verbatim>\<open>edge_costs\<close> unchanged in between: the test
  \<^verbatim>\<open>new_node_pair not in self.edge_costs\<close> holds whenever it is reached, and its
  \<^verbatim>\<open>else\<close> branch (the accumulation into an existing entry) is never executed.
\<close>

fun add_new_pairs :: "(node \<rightharpoonup> nat) \<Rightarrow> node \<Rightarrow> node \<Rightarrow> int list \<Rightarrow> node list
    \<Rightarrow> ((node \<times> node) \<times> matrix) list \<Rightarrow> error + ((node \<times> node) \<times> matrix) list" where
  "add_new_pairs lens src_node dst_node merge_map [] ec = Inr ec"
| "add_new_pairs lens src_node dst_node merge_map (child_node # rest) ec =
     (case map_of ec (src_node, child_node) of
        Some existing \<Rightarrow> add_new_pairs lens src_node dst_node merge_map rest ec
      | None \<Rightarrow>
          (case index_pairs lens src_node child_node of
             Inl e \<Rightarrow> Inl e
           | Inr ps \<Rightarrow>
               (case derive_edge_cost ec (dst_node, child_node) merge_map ps Map.empty of
                  Inl e \<Rightarrow> Inl e
                | Inr edge_cost \<Rightarrow>
                    add_new_pairs lens src_node dst_node merge_map rest
                      (AList.update (src_node, child_node) edge_cost ec))))"

subsection \<open>Connecting the source node with the children of the destination node\<close>

text \<open>
  The loop \<^verbatim>\<open>for child_node in dst_node.children\<close> of the section ``connect src node and
  children of dst node'', on the whole state: it appends to \<^verbatim>\<open>src_node.children\<close> and
  \<^verbatim>\<open>child_node.parents\<close> and, when \<^verbatim>\<open>dst_node.parents\<close> is empty, removes the
  destination node from the child's parents and pops the edge.
\<close>

fun connect_children :: "node \<Rightarrow> node \<Rightarrow> node list \<Rightarrow> cost_graph \<Rightarrow> error + cost_graph" where
  "connect_children src_node dst_node [] s = Inr s"
| "connect_children src_node dst_node (child_node # rest) s =
     (let s1 = (if child_node \<in> set (children s src_node) then s
                else s\<lparr>children := (children s)(src_node := children s src_node @ [child_node])\<rparr>);
          s2 = (if src_node \<in> set (parents s1 child_node) then s1
                else s1\<lparr>parents := (parents s1)(child_node := parents s1 child_node @ [src_node])\<rparr>)
      in if length (parents s2 dst_node) = 0
         then (case list_remove (parents s2 child_node) dst_node of
                 Inl e \<Rightarrow> Inl e
               | Inr ps \<Rightarrow>
                   (case dict_getitem (edge_costs s2) (dst_node, child_node) of
                      Inl e \<Rightarrow> Inl e
                    | Inr popped \<Rightarrow>
                        connect_children src_node dst_node rest
                          (s2\<lparr>parents := (parents s2)(child_node := ps),
                              edge_costs := AList.delete (dst_node, child_node) (edge_costs s2)\<rparr>)))
         else connect_children src_node dst_node rest s2)"

subsection \<open>The merge\<close>

text \<open>The merge map computed at the start of \<^verbatim>\<open>merge_node\<close>.\<close>

definition merge_map_of :: "cost_graph \<Rightarrow> node \<Rightarrow> node \<Rightarrow> error + int list" where
  "merge_map_of s src_node dst_node =
     build_merge_map (strategies_vector s dst_node) src_node
       [0..<length (strategies_vector s src_node)]"

definition merge_node :: "cost_graph \<Rightarrow> node \<Rightarrow> node \<Rightarrow> error + cost_graph" where
  "merge_node s src_node dst_node =
     (if src_node \<notin> set (parents s dst_node) then Inl ValueError
      else
     (case merge_map_of s src_node dst_node of
        Inl e \<Rightarrow> Inl e
      | Inr merge_map \<Rightarrow>
     (case node_lens s src_node of
        None \<Rightarrow> Inl KeyError
      | Some n \<Rightarrow>
     (case accrue_extra (strategies_vector s dst_node) src_node dst_node merge_map
             [0..<length (strategies_vector s src_node)]
             (AList.update src_node (replicate n 0) (extra_node_costs s)) of
        Inl e \<Rightarrow> Inl e
      | Inr extra \<Rightarrow>
     (case add_new_pairs (node_lens s) src_node dst_node merge_map (children s dst_node)
             (edge_costs s) of
        Inl e \<Rightarrow> Inl e
      | Inr ec \<Rightarrow>
     (case list_remove (parents s dst_node) src_node of
        Inl e \<Rightarrow> Inl e
      | Inr dst_parents \<Rightarrow>
     (let s1 = s\<lparr>extra_node_costs := extra, edge_costs := ec,
                 parents := (parents s)(dst_node := dst_parents)\<rparr>
      in
     (case list_remove (children s1 src_node) dst_node of
        Inl e \<Rightarrow> Inl e
      | Inr src_children \<Rightarrow>
     (let s2 = s1\<lparr>children := (children s1)(src_node := src_children)\<rparr>
      in
     (case dict_getitem (edge_costs s2) (src_node, dst_node) of
        Inl e \<Rightarrow> Inl e
      | Inr popped \<Rightarrow>
     (case connect_children src_node dst_node (children s2 dst_node)
             (s2\<lparr>edge_costs := AList.delete (src_node, dst_node) (edge_costs s2)\<rparr>) of
        Inl e \<Rightarrow> Inl e
      | Inr s3 \<Rightarrow>
          if length (parents s3 dst_node) = 0
          then Inr (s3\<lparr>following_dict := AList.update dst_node src_node (following_dict s3),
                       children := (children s3)(dst_node := [])\<rparr>)
          else Inr s3)))))))))))"

section \<open>\<^verbatim>\<open>CostGraph._reindexing_src\<close> and \<^verbatim>\<open>CostGraph.simplify_graph\<close>\<close>

text \<open>
  The recursion follows \<^verbatim>\<open>following_dict\<close> until it reaches a node that is not a key.
  On a cycle it never returns (Python ends it with a RecursionError): the value is
  \<open>None\<close>. The depth limit of the Python stack is not modelled.
\<close>

partial_function (option) reindexing_src :: "(node \<times> node) list \<Rightarrow> node \<Rightarrow> node option" where
  "reindexing_src fd src =
     (case map_of fd src of
        None \<Rightarrow> Some src
      | Some nxt \<Rightarrow> reindexing_src fd nxt)"

declare reindexing_src.simps [code]

text \<open>
  The loop \<^verbatim>\<open>for dst, src in self.following_dict.items()\<close> that fills
  \<^verbatim>\<open>reindexing_following_dict\<close>.
\<close>

fun reindex_items :: "(node \<times> node) list \<Rightarrow> (node \<times> node) list \<Rightarrow> (node \<times> node) list
    \<Rightarrow> error + (node \<times> node) list" where
  "reindex_items fd [] acc = Inr acc"
| "reindex_items fd ((dst, src) # rest) acc =
     (case reindexing_src fd src of
        None \<Rightarrow> Inl RecursionError
      | Some r \<Rightarrow> reindex_items fd rest (AList.update dst r acc))"

text \<open>The loop \<^verbatim>\<open>for (src_node, dst_node) in self.merge_pair\<close>.\<close>

fun merge_all :: "(node \<times> node) list \<Rightarrow> cost_graph \<Rightarrow> error + cost_graph" where
  "merge_all [] s = Inr s"
| "merge_all ((src_node, dst_node) # rest) s =
     (case merge_node s src_node dst_node of
        Inl e \<Rightarrow> Inl e
      | Inr s' \<Rightarrow> merge_all rest s')"

definition simplify_graph :: "cost_graph \<Rightarrow> error + cost_graph" where
  "simplify_graph s =
     (if \<not> simplify s then Inr s
      else
        (let s1 = s\<lparr>merge_pair := rev (merge_pair s)\<rparr>
         in (case merge_all (merge_pair s1) s1 of
               Inl e \<Rightarrow> Inl e
             | Inr s2 \<Rightarrow>
                 (let s3 = s2\<lparr>merge_pair := rev (merge_pair s2)\<rparr>
                  in (case reindex_items (following_dict s3) (following_dict s3) [] of
                        Inl e \<Rightarrow> Inl e
                      | Inr fd \<Rightarrow> Inr (s3\<lparr>following_dict := fd\<rparr>))))))"

section \<open>Example graphs\<close>

text \<open>An evaluation succeeded.\<close>

definition succeeds :: "error + 'a \<Rightarrow> bool" where
  "succeeds r = (case r of Inl e \<Rightarrow> False | Inr v \<Rightarrow> True)"

text \<open>The exception an evaluation ended with, if it did.\<close>

definition raised :: "error + 'a \<Rightarrow> error option" where
  "raised r = (case r of Inl e \<Rightarrow> Some e | Inr v \<Rightarrow> None)"

text \<open>
  The node attribute \<^verbatim>\<open>strategies_vector\<close> of the examples: the strategies of the
  element of \<^verbatim>\<open>leaf_strategies\<close> that belongs to the node.
\<close>

definition strategies_of :: "leaf_strategy list \<Rightarrow> node \<Rightarrow> strategy list" where
  "strategies_of leaves n =
     (case find (\<lambda>v. leaf_node v = n) leaves of
        None \<Rightarrow> []
      | Some v \<Rightarrow> leaf_strategies v)"

text \<open>
  A chain \<open>0 \<rightarrow> 1 \<rightarrow> 2 \<rightarrow> 3\<close> with two strategies per node; nodes 1 and 2 are mergeable,
  so the queue of merge pairs is \<open>[(0, 1), (1, 2)]\<close>.
\<close>

definition chain_leaves :: "leaf_strategy list" where
  "chain_leaves =
    [\<lparr>leaf_node = 0, leaf_strategies = [Map.empty, Map.empty],
      predecessor_nodes = [], successor_nodes = [1], check_merge = False\<rparr>,
     \<lparr>leaf_node = 1, leaf_strategies = [[0 \<mapsto> [Fin 4, Fin 2]], [0 \<mapsto> [Fin 1, Fin 5]]],
      predecessor_nodes = [0], successor_nodes = [2], check_merge = True\<rparr>,
     \<lparr>leaf_node = 2, leaf_strategies = [[1 \<mapsto> [Fin 3, Fin 7]], [1 \<mapsto> [Fin 3, Fin 1]]],
      predecessor_nodes = [1], successor_nodes = [3], check_merge = True\<rparr>,
     \<lparr>leaf_node = 3, leaf_strategies = [[2 \<mapsto> [Fin 10, Fin 20]], [2 \<mapsto> [Fin 30, Fin 40]]],
      predecessor_nodes = [2], successor_nodes = [], check_merge = False\<rparr>]"

definition chain_graph :: cost_graph where
  "chain_graph = projr (new_cost_graph (strategies_of chain_leaves) chain_leaves True)"

text \<open>
  Two producers of one mergeable node: \<open>0 \<rightarrow> 2\<close>, \<open>1 \<rightarrow> 2\<close>, \<open>2 \<rightarrow> 3\<close>, one strategy per
  node; the queue of merge pairs is \<open>[(0, 2), (1, 2)]\<close>.
\<close>

definition fork_leaves :: "leaf_strategy list" where
  "fork_leaves =
    [\<lparr>leaf_node = 0, leaf_strategies = [Map.empty],
      predecessor_nodes = [], successor_nodes = [2], check_merge = False\<rparr>,
     \<lparr>leaf_node = 1, leaf_strategies = [Map.empty],
      predecessor_nodes = [], successor_nodes = [2], check_merge = False\<rparr>,
     \<lparr>leaf_node = 2, leaf_strategies = [[0 \<mapsto> [Fin 1], 1 \<mapsto> [Fin 2]]],
      predecessor_nodes = [0, 1], successor_nodes = [3], check_merge = True\<rparr>,
     \<lparr>leaf_node = 3, leaf_strategies = [[2 \<mapsto> [Fin 5]]],
      predecessor_nodes = [2], successor_nodes = [], check_merge = False\<rparr>]"

definition fork_graph :: cost_graph where
  "fork_graph = projr (new_cost_graph (strategies_of fork_leaves) fork_leaves True)"

text \<open>
  A child shared by the two nodes of a merge pair: \<open>0 \<rightarrow> 1\<close>, \<open>1 \<rightarrow> 2\<close>, \<open>0 \<rightarrow> 2\<close>, one
  strategy per node; node 1 is mergeable, the queue of merge pairs is \<open>[(0, 1)]\<close>.
\<close>

definition shared_leaves :: "leaf_strategy list" where
  "shared_leaves =
    [\<lparr>leaf_node = 0, leaf_strategies = [Map.empty],
      predecessor_nodes = [], successor_nodes = [1, 2], check_merge = False\<rparr>,
     \<lparr>leaf_node = 1, leaf_strategies = [[0 \<mapsto> [Fin 1]]],
      predecessor_nodes = [0], successor_nodes = [2], check_merge = True\<rparr>,
     \<lparr>leaf_node = 2, leaf_strategies = [[0 \<mapsto> [Fin 7], 1 \<mapsto> [Fin 3]]],
      predecessor_nodes = [0, 1], successor_nodes = [], check_merge = False\<rparr>]"

definition shared_graph :: cost_graph where
  "shared_graph = projr (new_cost_graph (strategies_of shared_leaves) shared_leaves True)"

text \<open>
  An edge \<open>0 \<rightarrow> 1\<close> whose costs for strategy 0 of node 0 are all \<^verbatim>\<open>math.inf\<close>; node 0 has
  two strategies, the mergeable node 1 has two strategies and no successor.
\<close>

definition infeasible_leaves :: "leaf_strategy list" where
  "infeasible_leaves =
    [\<lparr>leaf_node = 0, leaf_strategies = [Map.empty, Map.empty],
      predecessor_nodes = [], successor_nodes = [1], check_merge = False\<rparr>,
     \<lparr>leaf_node = 1, leaf_strategies = [[0 \<mapsto> [PInf, Fin 1]], [0 \<mapsto> [PInf, Fin 2]]],
      predecessor_nodes = [0], successor_nodes = [], check_merge = True\<rparr>]"

definition infeasible_graph :: cost_graph where
  "infeasible_graph =
     projr (new_cost_graph (strategies_of infeasible_leaves) infeasible_leaves True)"

text \<open>
  One node with two mergeable children: \<open>0 \<rightarrow> 1\<close> and \<open>0 \<rightarrow> 2\<close>; node 0 has two
  strategies, nodes 1 and 2 have one; the queue of merge pairs is \<open>[(0, 1), (0, 2)]\<close>.
\<close>

definition twin_leaves :: "leaf_strategy list" where
  "twin_leaves =
    [\<lparr>leaf_node = 0, leaf_strategies = [Map.empty, Map.empty],
      predecessor_nodes = [], successor_nodes = [1, 2], check_merge = False\<rparr>,
     \<lparr>leaf_node = 1, leaf_strategies = [[0 \<mapsto> [Fin 4, Fin 3]]],
      predecessor_nodes = [0], successor_nodes = [], check_merge = True\<rparr>,
     \<lparr>leaf_node = 2, leaf_strategies = [[0 \<mapsto> [Fin 0, Fin 6]]],
      predecessor_nodes = [0], successor_nodes = [], check_merge = True\<rparr>]"

definition twin_graph :: cost_graph where
  "twin_graph = projr (new_cost_graph (strategies_of twin_leaves) twin_leaves True)"

section \<open>Reading one entry of a cost matrix\<close>

text \<open>\<^verbatim>\<open>get_edge_cost(u, v)[(i, j)]\<close>, as a caller of the class reads one cost.\<close>

definition edge_cost_entry :: "cost_graph \<Rightarrow> node \<Rightarrow> node \<Rightarrow> int \<Rightarrow> int \<Rightarrow> error + cost" where
  "edge_cost_entry s u v i j =
     (case get_edge_cost s u v of
        Inl e \<Rightarrow> Inl e
      | Inr m \<Rightarrow> (case m (i, j) of None \<Rightarrow> Inl KeyError | Some c \<Rightarrow> Inr c))"

section \<open>The cost of an assignment\<close>

text \<open>
  The total cost of section 4.4 of the specification, written out for a state of the cost
  graph and an assignment \<open>\<sigma>\<close> of one strategy index to every node. These definitions
  follow the specification, not a function of the source. An entry that a matrix or a list
  does not have counts zero.

  \<open>live_edge_cost\<close> adds, over the keys \<open>(u, v)\<close> of \<^verbatim>\<open>edge_costs\<close>, the entry
  \<open>(\<sigma> u, \<sigma> v)\<close> of the matrix. \<open>extra_cost\<close> adds, over the keys \<open>n\<close> of
  \<^verbatim>\<open>extra_node_costs\<close> that are not keys of \<^verbatim>\<open>following_dict\<close>, the entry \<open>\<sigma> n\<close> of the
  list: \<^verbatim>\<open>merge_node\<close> records extra costs under the node that absorbs, and folds the
  list of an absorbed node into the list of the node that absorbs it.
\<close>

definition selected_entry :: "matrix option \<Rightarrow> int \<Rightarrow> int \<Rightarrow> cost" where
  "selected_entry mo i j =
     (case mo of
        None \<Rightarrow> 0
      | Some m \<Rightarrow> (case m (i, j) of None \<Rightarrow> 0 | Some c \<Rightarrow> c))"

definition live_edge_cost :: "cost_graph \<Rightarrow> (node \<Rightarrow> int) \<Rightarrow> cost" where
  "live_edge_cost s \<sigma> =
     (\<Sum>(u, v)\<in>fst ` set (edge_costs s).
        selected_entry (map_of (edge_costs s) (u, v)) (\<sigma> u) (\<sigma> v))"

definition charged_extra :: "cost_graph \<Rightarrow> (node \<Rightarrow> int) \<Rightarrow> node \<Rightarrow> cost" where
  "charged_extra s \<sigma> n =
     (case map_of (following_dict s) n of
        Some absorber \<Rightarrow> 0
      | None \<Rightarrow>
          (case map_of (extra_node_costs s) n of
             None \<Rightarrow> 0
           | Some row \<Rightarrow> (case list_getitem row (\<sigma> n) of Inl e \<Rightarrow> 0 | Inr c \<Rightarrow> c)))"

definition extra_cost :: "cost_graph \<Rightarrow> (node \<Rightarrow> int) \<Rightarrow> cost" where
  "extra_cost s \<sigma> = (\<Sum>n\<in>fst ` set (extra_node_costs s). charged_extra s \<sigma> n)"

definition total_cost :: "cost_graph \<Rightarrow> (node \<Rightarrow> int) \<Rightarrow> cost" where
  "total_cost s \<sigma> = live_edge_cost s \<sigma> + extra_cost s \<sigma>"

text \<open>
  The merges whose accounting is exact for the assignment \<open>\<sigma>\<close>: the source node is the
  only parent of the destination node, which is not its own child; no child of the
  destination node is already connected to the source node, and the parents of each child
  are listed once; the extra cost already recorded for the source node at its strategy
  under \<open>\<sigma>\<close>, if any, is zero (the merge starts the list of the source node afresh);
  neither node is recorded as absorbed; \<open>\<sigma>\<close> gives the source node one of its
  strategies, the children of the destination node one of theirs, and the destination node
  the strategy that the merge map assigns; and the stored matrix of the edge holds, at the
  selected pair, the resharding cost that the destination node's strategy declares.
\<close>

definition exact_merge :: "cost_graph \<Rightarrow> node \<Rightarrow> node \<Rightarrow> (node \<Rightarrow> int) \<Rightarrow> bool" where
  "exact_merge s src dst \<sigma> \<longleftrightarrow>
     parents s dst = [src] \<and> dst \<notin> set (children s dst) \<and>
     list_all (\<lambda>c. distinct (parents s c) \<and> map_of (edge_costs s) (src, c) = None \<and>
                   (case node_lens s c of None \<Rightarrow> False | Some m \<Rightarrow> 0 \<le> \<sigma> c \<and> \<sigma> c < int m))
       (children s dst) \<and>
     charged_extra s \<sigma> src = 0 \<and>
     map_of (following_dict s) src = None \<and> map_of (following_dict s) dst = None \<and>
     0 \<le> \<sigma> src \<and> \<sigma> src < int (length (strategies_vector s src)) \<and> 0 \<le> \<sigma> dst \<and>
     (case merge_map_of s src dst of
        Inl e \<Rightarrow> False
      | Inr merge_map \<Rightarrow> merge_map_getitem merge_map (nat (\<sigma> src)) = Inr (\<sigma> dst)) \<and>
     (case list_getitem (strategies_vector s dst) (\<sigma> dst) of
        Inl e \<Rightarrow> False
      | Inr st \<Rightarrow> edge_cost_entry s src dst (\<sigma> src) (\<sigma> dst) =
                  resharding_cost st src (nat (\<sigma> src)))"

text \<open>Every merge of a run over a list of merge pairs returns and is exact.\<close>

fun exact_run :: "(node \<times> node) list \<Rightarrow> cost_graph \<Rightarrow> (node \<Rightarrow> int) \<Rightarrow> bool" where
  "exact_run [] s \<sigma> = True"
| "exact_run ((src, dst) # rest) s \<sigma> =
     (exact_merge s src dst \<sigma> \<and>
      (case merge_node s src dst of
         Inl e \<Rightarrow> False
       | Inr s' \<Rightarrow> exact_run rest s' \<sigma>))"

definition chain_assignment :: "node \<Rightarrow> int" where
  "chain_assignment n = [0, 1, 1, 0] ! n"

definition zero_assignment :: "node \<Rightarrow> int" where
  "zero_assignment n = 0"

definition twin_assignment :: "node \<Rightarrow> int" where
  "twin_assignment n = [1, 0, 0] ! n"

section \<open>Auxiliary facts\<close>

subsection \<open>Arithmetic and order of costs\<close>

lemma cost_plus_simps [simp]:
  "Fin a + Fin b = Fin (a + b)" "PInf + y = PInf" "x + PInf = PInf"
  by (simp_all add: plus_cost_def split: cost.splits)

lemma cost_less_simps [simp]:
  "Fin a < Fin b \<longleftrightarrow> a < b" "Fin a < PInf" "\<not> PInf < y"
  by (simp_all add: less_cost_def split: cost.splits)

lemma cost_less_eq_simps [simp]:
  "Fin a \<le> Fin b \<longleftrightarrow> a \<le> b" "x \<le> PInf" "\<not> PInf \<le> Fin b"
  by (simp_all add: less_eq_cost_def split: cost.splits)

lemma succeeds_projr: "succeeds r \<Longrightarrow> r = Inr (projr r)"
  by (cases r) (simp_all add: succeeds_def)

subsection \<open>The connecting loop\<close>

lemma connect_children_frame:
  "connect_children src dst cs s = Inr s' \<Longrightarrow>
     strategies_vector s' = strategies_vector s \<and> node_lens s' = node_lens s \<and>
     extra_node_costs s' = extra_node_costs s \<and> following_dict s' = following_dict s \<and>
     merge_pair s' = merge_pair s \<and> simplify s' = simplify s"
proof (induction cs arbitrary: s)
  case Nil
  then show ?case by simp
next
  case (Cons c cs)
  then show ?case
    by (auto simp: Let_def split: if_splits sum.splits)
qed

lemma connect_children_edges:
  "connect_children src dst cs s = Inr s' \<Longrightarrow> map_of (edge_costs s') k = Some m \<Longrightarrow>
     map_of (edge_costs s) k = Some m"
proof (induction cs arbitrary: s)
  case Nil
  then show ?case by simp
next
  case (Cons c cs)
  then show ?case
    by (fastforce simp: Let_def AList.delete_conv' split: if_splits sum.splits)
qed

lemma connect_children_edges_other:
  "connect_children src dst cs s = Inr s' \<Longrightarrow> \<forall>c\<in>set cs. k \<noteq> (dst, c) \<Longrightarrow>
     map_of (edge_costs s') k = map_of (edge_costs s) k"
proof (induction cs arbitrary: s)
  case Nil
  then show ?case by simp
next
  case (Cons c cs)
  then show ?case
    by (fastforce simp: Let_def AList.delete_conv' split: if_splits sum.splits)
qed

lemma connect_children_parents_other:
  "connect_children src dst cs s = Inr s' \<Longrightarrow> n \<notin> set cs \<Longrightarrow> parents s' n = parents s n"
proof (induction cs arbitrary: s)
  case Nil
  then show ?case by simp
next
  case (Cons c cs)
  then show ?case
    by (fastforce simp: Let_def list_remove_def split: if_splits sum.splits)
qed

lemma connect_children_children_other:
  "connect_children src dst cs s = Inr s' \<Longrightarrow> n \<noteq> src \<Longrightarrow> children s' n = children s n"
proof (induction cs arbitrary: s)
  case Nil
  then show ?case by simp
next
  case (Cons c cs)
  then show ?case
    by (fastforce simp: Let_def list_remove_def split: if_splits sum.splits)
qed

lemma connect_children_absorbed:
  "connect_children src dst cs s = Inr s' \<Longrightarrow> parents s dst = [] \<Longrightarrow> dst \<notin> set cs \<Longrightarrow>
     src \<noteq> dst \<Longrightarrow> \<forall>c\<in>set cs. distinct (parents s c) \<Longrightarrow>
     \<forall>c\<in>set cs. dst \<notin> set (parents s' c) \<and> map_of (edge_costs s') (dst, c) = None"
proof (induction cs arbitrary: s)
  case Nil
  then show ?case by simp
next
  case (Cons c cs)
  define s2 where "s2 = (let s1 = (if c \<in> set (children s src) then s
                else s\<lparr>children := (children s)(src := children s src @ [c])\<rparr>) in
          (if src \<in> set (parents s1 c) then s1
                else s1\<lparr>parents := (parents s1)(c := parents s1 c @ [src])\<rparr>))"
  define t where "t = s2\<lparr>parents := (parents s2)(c := remove1 dst (parents s2 c)),
                         edge_costs := AList.delete (dst, c) (edge_costs s2)\<rparr>"
  from Cons.prems have cd: "c \<noteq> dst" by auto
  have p2: "parents s2 dst = []"
    using Cons.prems(2) cd by (simp add: s2_def Let_def)
  have d2: "distinct (parents s2 c)"
    using Cons.prems(4,5) by (auto simp add: s2_def Let_def)
  have o2: "\<And>n. n \<noteq> c \<Longrightarrow> parents s2 n = parents s n"
    by (simp add: s2_def Let_def)
  from Cons.prems(1) p2 have run: "connect_children src dst cs t = Inr s'"
    by (auto simp: s2_def t_def Let_def list_remove_def dict_getitem_def
        split: if_splits sum.splits option.splits)
  have pt: "parents t dst = []" using p2 cd by (simp add: t_def)
  have dt: "\<forall>c'\<in>set cs. distinct (parents t c')"
    using Cons.prems(5) d2 o2 by (auto simp: t_def)
  have IH: "\<forall>c'\<in>set cs. dst \<notin> set (parents s' c') \<and> map_of (edge_costs s') (dst, c') = None"
    using Cons.IH[OF run pt _ Cons.prems(4) dt] Cons.prems(3) by simp
  have here: "dst \<notin> set (parents s' c) \<and> map_of (edge_costs s') (dst, c) = None"
  proof (cases "c \<in> set cs")
    case True
    then show ?thesis using IH by blast
  next
    case False
    have "parents s' c = parents t c"
      using connect_children_parents_other[OF run False] .
    moreover have "dst \<notin> set (parents t c)"
      using d2 by (simp add: t_def)
    moreover have "map_of (edge_costs t) (dst, c) = None"
      by (simp add: t_def AList.delete_conv')
    then have "map_of (edge_costs s') (dst, c) = None"
      using connect_children_edges[OF run, of "(dst, c)"]
      by (cases "map_of (edge_costs s') (dst, c)") auto
    ultimately show ?thesis by simp
  qed
  show ?case using here IH by simp
qed

lemma connect_children_retained:
  "connect_children src dst cs s = Inr s' \<Longrightarrow> parents s dst \<noteq> [] \<Longrightarrow> dst \<notin> set cs \<Longrightarrow>
     edge_costs s' = edge_costs s \<and> (\<forall>c. set (parents s c) \<subseteq> set (parents s' c))"
proof (induction cs arbitrary: s)
  case Nil
  then show ?case by simp
next
  case (Cons c cs)
  define s2 where "s2 = (let s1 = (if c \<in> set (children s src) then s
                else s\<lparr>children := (children s)(src := children s src @ [c])\<rparr>) in
          (if src \<in> set (parents s1 c) then s1
                else s1\<lparr>parents := (parents s1)(c := parents s1 c @ [src])\<rparr>))"
  from Cons.prems have cd: "c \<noteq> dst" by auto
  have p2: "parents s2 dst \<noteq> []"
    using Cons.prems(2) cd by (simp add: s2_def Let_def)
  from Cons.prems(1) p2 have run: "connect_children src dst cs s2 = Inr s'"
    by (auto simp: s2_def Let_def split: if_splits sum.splits option.splits)
  have e2: "edge_costs s2 = edge_costs s" by (simp add: s2_def Let_def)
  have sub: "\<And>n. set (parents s n) \<subseteq> set (parents s2 n)"
    by (auto simp: s2_def Let_def)
  from Cons.IH[OF run p2] Cons.prems(3) e2 sub show ?case by fastforce
qed

subsection \<open>The stages of a successful merge\<close>

lemma merge_node_Inr:
  assumes "merge_node s src dst = Inr s'"
  shows "\<exists>mm n extra ec s3.
    src \<in> set (parents s dst) \<and>
    merge_map_of s src dst = Inr mm \<and>
    node_lens s src = Some n \<and>
    accrue_extra (strategies_vector s dst) src dst mm [0..<length (strategies_vector s src)]
       (AList.update src (replicate n 0) (extra_node_costs s)) = Inr extra \<and>
    add_new_pairs (node_lens s) src dst mm (children s dst) (edge_costs s) = Inr ec \<and>
    dst \<in> set (children s src) \<and>
    map_of ec (src, dst) \<noteq> None \<and>
    connect_children src dst (((children s)(src := remove1 dst (children s src))) dst)
       (s\<lparr>extra_node_costs := extra,
          parents := (parents s)(dst := remove1 src (parents s dst)),
          children := (children s)(src := remove1 dst (children s src)),
          edge_costs := AList.delete (src, dst) ec\<rparr>) = Inr s3 \<and>
    s' = (if parents s3 dst = []
           then s3\<lparr>following_dict := AList.update dst src (following_dict s3),
                   children := (children s3)(dst := [])\<rparr>
           else s3)"
  using assms
  unfolding merge_node_def Let_def list_remove_def dict_getitem_def
  by (auto split: if_splits sum.splits option.splits)

subsection \<open>New node pairs\<close>

lemma add_new_pairs_keeps:
  "add_new_pairs lens src dst mm cs ec = Inr ec' \<Longrightarrow> map_of ec k = Some m \<Longrightarrow>
     map_of ec' k = Some m"
proof (induction cs arbitrary: ec)
  case Nil
  then show ?case by simp
next
  case (Cons c cs)
  show ?case
  proof (cases "map_of ec (src, c)")
    case None
    with Cons.prems obtain ps em where
      run: "add_new_pairs lens src dst mm cs (AList.update (src, c) em ec) = Inr ec'"
      by (auto split: sum.splits)
    from None Cons.prems(2) have "k \<noteq> (src, c)" by auto
    then have "map_of (AList.update (src, c) em ec) k = Some m"
      using Cons.prems(2) by (simp add: AList.update_conv')
    from Cons.IH[OF run this] show ?thesis .
  next
    case (Some a)
    with Cons.prems have "add_new_pairs lens src dst mm cs ec = Inr ec'" by simp
    from Cons.IH[OF this Cons.prems(2)] show ?thesis .
  qed
qed

lemma add_new_pairs_other:
  "add_new_pairs lens src dst mm cs ec = Inr ec' \<Longrightarrow> \<forall>c\<in>set cs. k \<noteq> (src, c) \<Longrightarrow>
     map_of ec' k = map_of ec k"
proof (induction cs arbitrary: ec)
  case Nil
  then show ?case by simp
next
  case (Cons c cs)
  show ?case
  proof (cases "map_of ec (src, c)")
    case None
    with Cons.prems obtain ps em where
      run: "add_new_pairs lens src dst mm cs (AList.update (src, c) em ec) = Inr ec'"
      by (auto split: sum.splits)
    from Cons.prems(2) have "k \<noteq> (src, c)" and rest: "\<forall>c\<in>set cs. k \<noteq> (src, c)" by auto
    then have "map_of (AList.update (src, c) em ec) k = map_of ec k"
      by (simp add: AList.update_conv')
    with Cons.IH[OF run rest] show ?thesis by simp
  next
    case (Some a)
    with Cons.prems have "add_new_pairs lens src dst mm cs ec = Inr ec'" by simp
    from Cons.IH[OF this] Cons.prems(2) show ?thesis by simp
  qed
qed

subsection \<open>The keys of the edge costs after the build\<close>

lemma build_edges_keys:
  "build_edges sv v ps ec = Inr ec' \<Longrightarrow>
     fst ` set ec' \<subseteq> fst ` set ec \<union> {(p, leaf_node v) | p. p \<in> set ps}"
proof (induction ps arbitrary: ec)
  case Nil
  then show ?case by simp
next
  case (Cons p ps)
  from Cons.prems obtain em where
    run: "build_edges sv v ps (AList.update (p, leaf_node v) em ec) = Inr ec'"
    by (auto split: sum.splits)
  have "fst ` set (AList.update (p, leaf_node v) em ec) = {(p, leaf_node v)} \<union> fst ` set ec"
    by (rule AList.dom_update)
  with Cons.IH[OF run] show ?case
    by auto
qed

lemma build_cost_graph_keys:
  "build_cost_graph leaves s = Inr s' \<Longrightarrow> k \<in> fst ` set (edge_costs s') \<Longrightarrow>
     k \<in> fst ` set (edge_costs s) \<or>
     (\<exists>v\<in>set leaves. \<exists>p\<in>set (predecessor_nodes v). k = (p, leaf_node v))"
proof (induction leaves arbitrary: s)
  case Nil
  then show ?case by simp
next
  case (Cons v leaves)
  from Cons.prems(1) obtain ec s2 where
    ec: "build_edges (strategies_vector s) v (predecessor_nodes v) (edge_costs s) = Inr ec"
    and run: "build_cost_graph leaves s2 = Inr s'"
    and e2: "edge_costs s2 = ec"
    by (auto simp: Let_def split: sum.splits if_splits)
  from Cons.IH[OF run Cons.prems(2)] consider
    (old) "k \<in> fst ` set ec"
    | (new) "\<exists>v\<in>set leaves. \<exists>p\<in>set (predecessor_nodes v). k = (p, leaf_node v)"
    using e2 by blast
  then show ?case
  proof cases
    case old
    with build_edges_keys[OF ec] have
      "k \<in> fst ` set (edge_costs s) \<or> (\<exists>p\<in>set (predecessor_nodes v). k = (p, leaf_node v))"
      by blast
    then show ?thesis by auto
  next
    case new
    then show ?thesis by auto
  qed
qed

lemma new_cost_graph_keys:
  assumes "new_cost_graph sv leaves flag = Inr s" and "(a, b) \<in> fst ` set (edge_costs s)"
  shows "\<exists>v\<in>set leaves. leaf_node v = b \<and> a \<in> set (predecessor_nodes v)"
proof -
  from assms(1) have "build_cost_graph leaves
       \<lparr>strategies_vector = sv,
        node_lens = map_of (rev (map (\<lambda>v. (leaf_node v, length (leaf_strategies v))) leaves)),
        extra_node_costs = [], following_dict = [], edge_costs = [],
        parents = (\<lambda>n. []), children = (\<lambda>n. []), merge_pair = [],
        simplify = flag\<rparr> = Inr s"
    by (simp add: new_cost_graph_def)
  from build_cost_graph_keys[OF this assms(2)] show ?thesis by auto
qed

lemma map_of_None_iff: "map_of al k = None \<longleftrightarrow> k \<notin> fst ` set al"
  by (simp add: map_of_eq_None_iff)

subsection \<open>Edges after a merge\<close>

lemma merge_node_edge_popped:
  assumes "merge_node s src dst = Inr s'"
  shows "map_of (edge_costs s') (src, dst) = None"
proof -
  from merge_node_Inr[OF assms] obtain extra ec s3 where
    cc: "connect_children src dst (((children s)(src := remove1 dst (children s src))) dst)
       (s\<lparr>extra_node_costs := extra,
          parents := (parents s)(dst := remove1 src (parents s dst)),
          children := (children s)(src := remove1 dst (children s src)),
          edge_costs := AList.delete (src, dst) ec\<rparr>) = Inr s3"
    and s': "s' = (if parents s3 dst = []
           then s3\<lparr>following_dict := AList.update dst src (following_dict s3),
                   children := (children s3)(dst := [])\<rparr>
           else s3)"
    by blast
  have "map_of (edge_costs s3) (src, dst) = None"
    using connect_children_edges[OF cc, of "(src, dst)"]
    by (cases "map_of (edge_costs s3) (src, dst)") (auto simp: AList.delete_conv')
  then show ?thesis using s' by simp
qed

subsection \<open>Fields that a merge leaves alone\<close>

lemma merge_node_frame:
  assumes "merge_node s src dst = Inr s'"
  shows "merge_pair s' = merge_pair s \<and> simplify s' = simplify s \<and>
         strategies_vector s' = strategies_vector s \<and> node_lens s' = node_lens s"
proof -
  from merge_node_Inr[OF assms] obtain extra ec s3 where
    cc: "connect_children src dst (((children s)(src := remove1 dst (children s src))) dst)
       (s\<lparr>extra_node_costs := extra,
          parents := (parents s)(dst := remove1 src (parents s dst)),
          children := (children s)(src := remove1 dst (children s src)),
          edge_costs := AList.delete (src, dst) ec\<rparr>) = Inr s3"
    and s': "s' = (if parents s3 dst = []
           then s3\<lparr>following_dict := AList.update dst src (following_dict s3),
                   children := (children s3)(dst := [])\<rparr>
           else s3)"
    by blast
  from connect_children_frame[OF cc] s' show ?thesis by simp
qed

lemma merge_all_merge_pair:
  "merge_all ps s = Inr s' \<Longrightarrow> merge_pair s' = merge_pair s \<and> simplify s' = simplify s \<and>
     strategies_vector s' = strategies_vector s \<and> node_lens s' = node_lens s"
proof (induction ps arbitrary: s)
  case Nil
  then show ?case by simp
next
  case (Cons p ps)
  obtain a b where p: "p = (a, b)" by (cases p)
  with Cons.prems obtain s1 where
    m: "merge_node s a b = Inr s1" and run: "merge_all ps s1 = Inr s'"
    by (auto split: sum.splits)
  from merge_node_frame[OF m] Cons.IH[OF run] show ?case by simp
qed

subsection \<open>The merge map\<close>

lemma lowest_cost_reads:
  "lowest_cost ds src i j mc idx = Inr k \<Longrightarrow>
     \<forall>n<length ds. \<exists>c. resharding_cost (ds ! n) src i = Inr c"
proof (induction ds arbitrary: j mc idx)
  case Nil
  then show ?case by simp
next
  case (Cons d ds)
  from Cons.prems obtain c where c: "resharding_cost d src i = Inr c"
    by (auto split: sum.splits)
  from Cons.prems c have "\<exists>j' mc' idx'. lowest_cost ds src i j' mc' idx' = Inr k"
    by (auto split: if_splits)
  then obtain j' mc' idx' where "lowest_cost ds src i j' mc' idx' = Inr k" by blast
  from Cons.IH[OF this] c show ?case
    by (auto simp: nth_Cons split: nat.splits)
qed

lemma lowest_cost_spec:
  "lowest_cost ds src i j mc idx = Inr k \<Longrightarrow>
     (k = idx \<and> (\<forall>n<length ds. \<forall>c. resharding_cost (ds ! n) src i = Inr c \<longrightarrow> \<not> c < mc)) \<or>
     (\<exists>n<length ds. \<exists>ck. k = int (j + n) \<and> resharding_cost (ds ! n) src i = Inr ck \<and> ck < mc \<and>
        (\<forall>m<length ds. \<forall>c. resharding_cost (ds ! m) src i = Inr c \<longrightarrow> ck \<le> c) \<and>
        (\<forall>m<n. \<forall>c. resharding_cost (ds ! m) src i = Inr c \<longrightarrow> ck < c))"
proof (induction ds arbitrary: j mc idx)
  case Nil
  then show ?case by simp
next
  case (Cons d ds)
  from Cons.prems obtain c where c: "resharding_cost d src i = Inr c"
    by (auto split: sum.splits)
  show ?case
  proof (cases "c < mc")
    case True
    with Cons.prems c have run: "lowest_cost ds src i (Suc j) c (int j) = Inr k" by simp
    from Cons.IH[OF run] show ?thesis
    proof
      assume a: "k = int j \<and>
        (\<forall>n<length ds. \<forall>c'. resharding_cost (ds ! n) src i = Inr c' \<longrightarrow> \<not> c' < c)"
      have "0 < length (d # ds) \<and> k = int (j + 0) \<and>
            resharding_cost ((d # ds) ! 0) src i = Inr c \<and> c < mc \<and>
            (\<forall>m<length (d # ds). \<forall>c'. resharding_cost ((d # ds) ! m) src i = Inr c' \<longrightarrow> c \<le> c') \<and>
            (\<forall>m<0. \<forall>c'. resharding_cost ((d # ds) ! m) src i = Inr c' \<longrightarrow> c < c')"
        using a c True by (auto simp: nth_Cons split: nat.splits)
      then show ?thesis by blast
    next
      assume "\<exists>n<length ds. \<exists>ck. k = int (Suc j + n) \<and>
        resharding_cost (ds ! n) src i = Inr ck \<and> ck < c \<and>
        (\<forall>m<length ds. \<forall>c'. resharding_cost (ds ! m) src i = Inr c' \<longrightarrow> ck \<le> c') \<and>
        (\<forall>m<n. \<forall>c'. resharding_cost (ds ! m) src i = Inr c' \<longrightarrow> ck < c')"
      then obtain n ck where n: "n < length ds" and k: "k = int (Suc j + n)"
        and rk: "resharding_cost (ds ! n) src i = Inr ck" and lt: "ck < c"
        and mn: "\<forall>m<length ds. \<forall>c'. resharding_cost (ds ! m) src i = Inr c' \<longrightarrow> ck \<le> c'"
        and fst: "\<forall>m<n. \<forall>c'. resharding_cost (ds ! m) src i = Inr c' \<longrightarrow> ck < c'"
        by blast
      have "Suc n < length (d # ds) \<and> k = int (j + Suc n) \<and>
            resharding_cost ((d # ds) ! Suc n) src i = Inr ck \<and> ck < mc \<and>
            (\<forall>m<length (d # ds). \<forall>c'. resharding_cost ((d # ds) ! m) src i = Inr c' \<longrightarrow> ck \<le> c') \<and>
            (\<forall>m<Suc n. \<forall>c'. resharding_cost ((d # ds) ! m) src i = Inr c' \<longrightarrow> ck < c')"
        using n k rk lt mn fst c True by (auto simp: nth_Cons split: nat.splits)
      then show ?thesis by blast
    qed
  next
    case False
    with Cons.prems c have run: "lowest_cost ds src i (Suc j) mc idx = Inr k" by simp
    from Cons.IH[OF run] show ?thesis
    proof
      assume "k = idx \<and>
        (\<forall>n<length ds. \<forall>c'. resharding_cost (ds ! n) src i = Inr c' \<longrightarrow> \<not> c' < mc)"
      then have "k = idx \<and> (\<forall>n<length (d # ds). \<forall>c'.
          resharding_cost ((d # ds) ! n) src i = Inr c' \<longrightarrow> \<not> c' < mc)"
        using c False by (auto simp: nth_Cons split: nat.splits)
      then show ?thesis by blast
    next
      assume "\<exists>n<length ds. \<exists>ck. k = int (Suc j + n) \<and>
        resharding_cost (ds ! n) src i = Inr ck \<and> ck < mc \<and>
        (\<forall>m<length ds. \<forall>c'. resharding_cost (ds ! m) src i = Inr c' \<longrightarrow> ck \<le> c') \<and>
        (\<forall>m<n. \<forall>c'. resharding_cost (ds ! m) src i = Inr c' \<longrightarrow> ck < c')"
      then obtain n ck where n: "n < length ds" and k: "k = int (Suc j + n)"
        and rk: "resharding_cost (ds ! n) src i = Inr ck" and lt: "ck < mc"
        and mn: "\<forall>m<length ds. \<forall>c'. resharding_cost (ds ! m) src i = Inr c' \<longrightarrow> ck \<le> c'"
        and fst: "\<forall>m<n. \<forall>c'. resharding_cost (ds ! m) src i = Inr c' \<longrightarrow> ck < c'"
        by blast
      have "Suc n < length (d # ds) \<and> k = int (j + Suc n) \<and>
            resharding_cost ((d # ds) ! Suc n) src i = Inr ck \<and> ck < mc \<and>
            (\<forall>m<length (d # ds). \<forall>c'. resharding_cost ((d # ds) ! m) src i = Inr c' \<longrightarrow> ck \<le> c') \<and>
            (\<forall>m<Suc n. \<forall>c'. resharding_cost ((d # ds) ! m) src i = Inr c' \<longrightarrow> ck < c')"
        using n k rk lt mn fst c False by (auto simp: nth_Cons split: nat.splits)
      then show ?thesis by blast
    qed
  qed
qed

lemma build_merge_map_nth:
  "build_merge_map ds src is = Inr mm \<Longrightarrow>
     length mm = length is \<and>
     (\<forall>p<length is. lowest_cost ds src (is ! p) 0 PInf (- 1) = Inr (mm ! p))"
proof (induction "is" arbitrary: mm)
  case Nil
  then show ?case by simp
next
  case (Cons i "is")
  from Cons.prems obtain k ks where
    k: "lowest_cost ds src i 0 PInf (- 1) = Inr k"
    and ks: "build_merge_map ds src is = Inr ks"
    and mm: "mm = k # ks"
    by (auto split: sum.splits)
  from Cons.IH[OF ks] k mm show ?case
    by (auto simp: nth_Cons split: nat.splits)
qed

lemma merge_map_of_nth:
  assumes "merge_map_of s src dst = Inr mm" and "i < length (strategies_vector s src)"
  shows "length mm = length (strategies_vector s src) \<and>
         lowest_cost (strategies_vector s dst) src i 0 PInf (- 1) = Inr (mm ! i)"
  using build_merge_map_nth[OF assms(1)[unfolded merge_map_of_def]] assms(2)
  by simp

subsection \<open>Accrual of extra node costs\<close>

lemma map_of_Some_key: "map_of al k = Some v \<Longrightarrow> k \<in> fst ` set al"
  by (metis domI dom_map_of_conv_image_fst)

lemma extra_add_nat:
  assumes "extra_add ex n (int i) v = Inr ex'"
  obtains row where "map_of ex n = Some row" "i < length row"
    "ex' = AList.update n (row[i := row ! i + v]) ex"
  using assms
  by (auto simp: extra_add_def dict_getitem_def list_getitem_def list_setitem_def
      split: option.splits if_splits)

lemma accrue_extra_step:
  assumes "accrue_extra ds src dst mm (i # is) ex = Inr ex'"
    and "src \<noteq> dst" and "map_of ex src = Some row"
  shows "\<exists>t target c ex2.
     merge_map_getitem mm i = Inr t \<and> list_getitem ds t = Inr target \<and>
     resharding_cost target src i = Inr c \<and> i < length row \<and>
     accrue_extra ds src dst mm is ex2 = Inr ex' \<and>
     (\<forall>n. n \<noteq> src \<longrightarrow> map_of ex2 n = map_of ex n) \<and> fst ` set ex2 = fst ` set ex \<and>
     (case map_of ex dst of
        None \<Rightarrow> map_of ex2 src = Some (row[i := row ! i + c])
      | Some drow \<Rightarrow> \<exists>d. list_getitem drow t = Inr d \<and>
                       map_of ex2 src = Some (row[i := row ! i + c + d]))"
proof -
  from assms(1) obtain t target c ex1 where
    t: "merge_map_getitem mm i = Inr t" and tg: "list_getitem ds t = Inr target"
    and c: "resharding_cost target src i = Inr c"
    and e1: "extra_add ex src (int i) c = Inr ex1"
    and rest: "(case map_of ex1 dst of
             None \<Rightarrow> accrue_extra ds src dst mm is ex1
           | Some dst_row \<Rightarrow>
               (case list_getitem dst_row t of
                  Inl e \<Rightarrow> Inl e
                | Inr d \<Rightarrow>
                    (case extra_add ex1 src (int i) d of
                       Inl e \<Rightarrow> Inl e
                     | Inr extra2 \<Rightarrow> accrue_extra ds src dst mm is extra2))) = Inr ex'"
    by (auto split: sum.splits)
  from e1 assms(3) have il: "i < length row"
    and ex1: "ex1 = AList.update src (row[i := row ! i + c]) ex"
    by (auto elim!: extra_add_nat)
  have o1: "\<forall>n. n \<noteq> src \<longrightarrow> map_of ex1 n = map_of ex n"
    by (simp add: ex1 AList.update_conv')
  then have d1: "map_of ex1 dst = map_of ex dst"
    using assms(2) by simp
  have s1: "map_of ex1 src = Some (row[i := row ! i + c])"
    by (simp add: ex1 AList.update_conv')
  have "src \<in> fst ` set ex"
    using assms(3) by (rule map_of_Some_key)
  then have k1: "fst ` set ex1 = fst ` set ex"
    by (auto simp: ex1 AList.dom_update)
  show ?thesis
  proof (cases "map_of ex dst")
    case None
    with rest d1 have run1: "accrue_extra ds src dst mm is ex1 = Inr ex'" by simp
    then have "(case map_of ex dst of
        None \<Rightarrow> map_of ex1 src = Some (row[i := row ! i + c])
      | Some drow \<Rightarrow> \<exists>d. list_getitem drow t = Inr d \<and>
                       map_of ex1 src = Some (row[i := row ! i + c + d]))"
      using s1 None by simp
    with t tg c il o1 k1 run1 show ?thesis by blast
  next
    case (Some drow)
    with rest d1 obtain d ex2 where
      d: "list_getitem drow t = Inr d"
      and e2: "extra_add ex1 src (int i) d = Inr ex2"
      and run: "accrue_extra ds src dst mm is ex2 = Inr ex'"
      by (auto split: sum.splits)
    from e2 s1 have ex2: "ex2 = AList.update src ((row[i := row ! i + c])[i := (row[i := row ! i + c]) ! i + d]) ex1"
      by (auto elim!: extra_add_nat)
    have s2: "map_of ex2 src = Some (row[i := row ! i + c + d])"
      using il by (simp add: ex2 AList.update_conv')
    have d2: "\<forall>n. n \<noteq> src \<longrightarrow> map_of ex2 n = map_of ex n"
      using o1 by (simp add: ex2 AList.update_conv')
    have "src \<in> fst ` set ex1"
      using s1 by (rule map_of_Some_key)
    then have k2: "fst ` set ex2 = fst ` set ex"
      using k1 by (auto simp: ex2 AList.dom_update)
    have "(case map_of ex dst of
        None \<Rightarrow> map_of ex2 src = Some (row[i := row ! i + c])
      | Some drow \<Rightarrow> \<exists>d. list_getitem drow t = Inr d \<and>
                       map_of ex2 src = Some (row[i := row ! i + c + d]))"
      using s2 d Some by simp
    with t tg c il run d2 k2 show ?thesis by blast
  qed
qed

lemma accrue_extra_spec:
  assumes "accrue_extra ds src dst mm is ex = Inr ex'"
    and "src \<noteq> dst" and "distinct is" and "map_of ex src = Some row"
  shows "(\<forall>n. n \<noteq> src \<longrightarrow> map_of ex' n = map_of ex n) \<and> fst ` set ex' = fst ` set ex \<and>
     (\<exists>row'. map_of ex' src = Some row' \<and> length row' = length row \<and>
        (\<forall>i<length row. i \<notin> set is \<longrightarrow> row' ! i = row ! i) \<and>
        (\<forall>i\<in>set is. i < length row \<and>
           (\<exists>t target c. merge_map_getitem mm i = Inr t \<and> list_getitem ds t = Inr target \<and>
              resharding_cost target src i = Inr c \<and>
              (case map_of ex dst of
                 None \<Rightarrow> row' ! i = row ! i + c
               | Some drow \<Rightarrow> \<exists>d. list_getitem drow t = Inr d \<and> row' ! i = row ! i + c + d))))"
  using assms
proof (induction "is" arbitrary: ex row)
  case Nil
  then show ?case by simp
next
  case (Cons i "is")
  from accrue_extra_step[OF Cons.prems(1,2,4)] obtain t target c ex2 where
    t: "merge_map_getitem mm i = Inr t" and tg: "list_getitem ds t = Inr target"
    and c: "resharding_cost target src i = Inr c" and il: "i < length row"
    and run: "accrue_extra ds src dst mm is ex2 = Inr ex'"
    and o2': "\<forall>n. n \<noteq> src \<longrightarrow> map_of ex2 n = map_of ex n"
    and k2: "fst ` set ex2 = fst ` set ex"
    and s2: "(case map_of ex dst of
        None \<Rightarrow> map_of ex2 src = Some (row[i := row ! i + c])
      | Some drow \<Rightarrow> \<exists>d. list_getitem drow t = Inr d \<and>
                       map_of ex2 src = Some (row[i := row ! i + c + d]))"
    by (elim exE conjE) (rule that)
  from o2' Cons.prems(2) have d2: "map_of ex2 dst = map_of ex dst" by simp
  from s2 obtain row2 where r2: "map_of ex2 src = Some row2"
    and l2: "length row2 = length row"
    and o2: "\<And>j. j \<noteq> i \<Longrightarrow> row2 ! j = row ! j"
    and i2: "(case map_of ex dst of
                 None \<Rightarrow> row2 ! i = row ! i + c
               | Some drow \<Rightarrow> \<exists>d. list_getitem drow t = Inr d \<and> row2 ! i = row ! i + c + d)"
    using il by (cases "map_of ex dst") auto
  from Cons.prems(3) have di: "distinct is" and ni: "i \<notin> set is" by auto
  from Cons.IH[OF run Cons.prems(2) di r2] obtain row' where
    a: "\<forall>n. n \<noteq> src \<longrightarrow> map_of ex' n = map_of ex2 n" and b: "fst ` set ex' = fst ` set ex2"
    and r': "map_of ex' src = Some row'" and l': "length row' = length row2"
    and keep: "\<forall>j<length row2. j \<notin> set is \<longrightarrow> row' ! j = row2 ! j"
    and upd: "\<forall>j\<in>set is. j < length row2 \<and>
           (\<exists>t target c. merge_map_getitem mm j = Inr t \<and> list_getitem ds t = Inr target \<and>
              resharding_cost target src j = Inr c \<and>
              (case map_of ex2 dst of
                 None \<Rightarrow> row' ! j = row2 ! j + c
               | Some drow \<Rightarrow> \<exists>d. list_getitem drow t = Inr d \<and> row' ! j = row2 ! j + c + d))"
    by (elim exE conjE) (rule that)
  have here: "row' ! i = row2 ! i" using keep il l2 ni by simp
  have "\<forall>j\<in>set (i # is). j < length row \<and>
           (\<exists>t target c. merge_map_getitem mm j = Inr t \<and> list_getitem ds t = Inr target \<and>
              resharding_cost target src j = Inr c \<and>
              (case map_of ex dst of
                 None \<Rightarrow> row' ! j = row ! j + c
               | Some drow \<Rightarrow> \<exists>d. list_getitem drow t = Inr d \<and> row' ! j = row ! j + c + d))"
  proof
    fix j assume "j \<in> set (i # is)"
    then consider "j = i" | "j \<in> set is" "j \<noteq> i" using ni by auto
    then show "j < length row \<and>
           (\<exists>t target c. merge_map_getitem mm j = Inr t \<and> list_getitem ds t = Inr target \<and>
              resharding_cost target src j = Inr c \<and>
              (case map_of ex dst of
                 None \<Rightarrow> row' ! j = row ! j + c
               | Some drow \<Rightarrow> \<exists>d. list_getitem drow t = Inr d \<and> row' ! j = row ! j + c + d))"
    proof cases
      case 1
      then show ?thesis using il t tg c i2 here by (auto split: option.splits)
    next
      case 2
      from upd 2(1) obtain t' target' c' where
        "j < length row2" "merge_map_getitem mm j = Inr t'" "list_getitem ds t' = Inr target'"
        "resharding_cost target' src j = Inr c'"
        "(case map_of ex2 dst of
                 None \<Rightarrow> row' ! j = row2 ! j + c'
               | Some drow \<Rightarrow> \<exists>d. list_getitem drow t' = Inr d \<and> row' ! j = row2 ! j + c' + d)"
        by blast
      then show ?thesis using o2[OF 2(2)] l2 d2 by (auto split: option.splits)
    qed
  qed
  moreover have "\<forall>j<length row. j \<notin> set (i # is) \<longrightarrow> row' ! j = row ! j"
    using keep o2 l2 by auto
  moreover have "\<forall>n. n \<noteq> src \<longrightarrow> map_of ex' n = map_of ex n"
    using a o2' by simp
  moreover have "fst ` set ex' = fst ` set ex" using b k2 by simp
  moreover have "length row' = length row" using l' l2 by simp
  ultimately show ?case using r' by blast
qed

lemma merge_node_extra:
  assumes "merge_node s src dst = Inr s'" and "src \<noteq> dst"
  shows "\<exists>mm row. merge_map_of s src dst = Inr mm \<and>
     map_of (extra_node_costs s') src = Some row \<and>
     node_lens s src = Some (length row) \<and>
     (\<forall>n. n \<noteq> src \<longrightarrow> map_of (extra_node_costs s') n = map_of (extra_node_costs s) n) \<and>
     fst ` set (extra_node_costs s') = insert src (fst ` set (extra_node_costs s)) \<and>
     (\<forall>i<length (strategies_vector s src). i < length row \<and>
        (\<exists>target c. list_getitem (strategies_vector s dst) (mm ! i) = Inr target \<and>
           resharding_cost target src i = Inr c \<and>
           (case map_of (extra_node_costs s) dst of
              None \<Rightarrow> row ! i = c
            | Some drow \<Rightarrow> \<exists>d. list_getitem drow (mm ! i) = Inr d \<and> row ! i = c + d)))"
proof -
  from merge_node_Inr[OF assms(1)] obtain mm n extra ec s3 where
    mm: "merge_map_of s src dst = Inr mm"
    and n: "node_lens s src = Some n"
    and acc: "accrue_extra (strategies_vector s dst) src dst mm
       [0..<length (strategies_vector s src)]
       (AList.update src (replicate n 0) (extra_node_costs s)) = Inr extra"
    and cc: "connect_children src dst (((children s)(src := remove1 dst (children s src))) dst)
       (s\<lparr>extra_node_costs := extra,
          parents := (parents s)(dst := remove1 src (parents s dst)),
          children := (children s)(src := remove1 dst (children s src)),
          edge_costs := AList.delete (src, dst) ec\<rparr>) = Inr s3"
    and s': "s' = (if parents s3 dst = []
           then s3\<lparr>following_dict := AList.update dst src (following_dict s3),
                   children := (children s3)(dst := [])\<rparr>
           else s3)"
    by blast
  have ex': "extra_node_costs s' = extra"
    using connect_children_frame[OF cc] s' by simp
  define ex0 where "ex0 = AList.update src (replicate n (0::cost)) (extra_node_costs s)"
  have r0: "map_of ex0 src = Some (replicate n 0)"
    by (simp add: ex0_def AList.update_conv')
  have o0: "\<And>m. m \<noteq> src \<Longrightarrow> map_of ex0 m = map_of (extra_node_costs s) m"
    by (simp add: ex0_def AList.update_conv')
  have k0: "fst ` set ex0 = insert src (fst ` set (extra_node_costs s))"
    by (simp add: ex0_def AList.dom_update)
  have dist: "distinct [0..<length (strategies_vector s src)]" by simp
  from accrue_extra_spec[OF acc[folded ex0_def] assms(2) dist r0] obtain row where
    a: "\<forall>m. m \<noteq> src \<longrightarrow> map_of extra m = map_of ex0 m"
    and b: "fst ` set extra = fst ` set ex0"
    and r: "map_of extra src = Some row" and l0: "length row = length (replicate n (0::cost))"
    and upd: "\<forall>i\<in>set [0..<length (strategies_vector s src)]. i < length (replicate n (0::cost)) \<and>
           (\<exists>t target c. merge_map_getitem mm i = Inr t \<and>
              list_getitem (strategies_vector s dst) t = Inr target \<and>
              resharding_cost target src i = Inr c \<and>
              (case map_of ex0 dst of
                 None \<Rightarrow> row ! i = replicate n 0 ! i + c
               | Some drow \<Rightarrow> \<exists>d. list_getitem drow t = Inr d \<and>
                    row ! i = replicate n 0 ! i + c + d))"
    by (elim exE conjE) (rule that)
  from l0 have l: "length row = n" by simp
  have "\<forall>i<length (strategies_vector s src). i < length row \<and>
        (\<exists>target c. list_getitem (strategies_vector s dst) (mm ! i) = Inr target \<and>
           resharding_cost target src i = Inr c \<and>
           (case map_of (extra_node_costs s) dst of
              None \<Rightarrow> row ! i = c
            | Some drow \<Rightarrow> \<exists>d. list_getitem drow (mm ! i) = Inr d \<and> row ! i = c + d))"
  proof (intro allI impI)
    fix i assume i: "i < length (strategies_vector s src)"
    then have "i \<in> set [0..<length (strategies_vector s src)]" by simp
    with upd have "i < length (replicate n (0::cost)) \<and>
           (\<exists>t target c. merge_map_getitem mm i = Inr t \<and>
              list_getitem (strategies_vector s dst) t = Inr target \<and>
              resharding_cost target src i = Inr c \<and>
              (case map_of ex0 dst of
                 None \<Rightarrow> row ! i = replicate n 0 ! i + c
               | Some drow \<Rightarrow> \<exists>d. list_getitem drow t = Inr d \<and>
                    row ! i = replicate n 0 ! i + c + d))"
      by blast
    then obtain t target c where
      il: "i < n" and t: "merge_map_getitem mm i = Inr t"
      and tg: "list_getitem (strategies_vector s dst) t = Inr target"
      and c: "resharding_cost target src i = Inr c"
      and v: "(case map_of ex0 dst of
                 None \<Rightarrow> row ! i = replicate n 0 ! i + c
               | Some drow \<Rightarrow> \<exists>d. list_getitem drow t = Inr d \<and>
                    row ! i = replicate n 0 ! i + c + d)"
      by auto
    from t have tm: "t = mm ! i" by (auto simp: merge_map_getitem_def split: if_splits)
    have z: "replicate n (0::cost) ! i = 0" using il by simp
    have dd: "map_of ex0 dst = map_of (extra_node_costs s) dst"
      using o0[of dst] assms(2) by simp
    from v have
      "(case map_of (extra_node_costs s) dst of
              None \<Rightarrow> row ! i = c
            | Some drow \<Rightarrow> \<exists>d. list_getitem drow t = Inr d \<and> row ! i = c + d)"
      unfolding z dd by (simp split: option.splits)
    with il l tg c tm show "i < length row \<and>
        (\<exists>target c. list_getitem (strategies_vector s dst) (mm ! i) = Inr target \<and>
           resharding_cost target src i = Inr c \<and>
           (case map_of (extra_node_costs s) dst of
              None \<Rightarrow> row ! i = c
            | Some drow \<Rightarrow> \<exists>d. list_getitem drow (mm ! i) = Inr d \<and> row ! i = c + d))"
      by auto
  qed
  moreover have "\<forall>m. m \<noteq> src \<longrightarrow>
      map_of (extra_node_costs s') m = map_of (extra_node_costs s) m"
    using a o0 ex' by simp
  moreover have "fst ` set (extra_node_costs s') = insert src (fst ` set (extra_node_costs s))"
    using b k0 ex' by simp
  moreover have "map_of (extra_node_costs s') src = Some row" using r ex' by simp
  moreover have "node_lens s src = Some (length row)" using n l by simp
  ultimately show ?thesis using mm by blast
qed

subsection \<open>The index chosen for a row with a finite cost\<close>

lemma lowest_cost_feasible:
  assumes "lowest_cost ds src i 0 PInf (- 1) = Inr k"
    and "\<exists>j<length ds. \<exists>c. resharding_cost (ds ! j) src i = Inr c \<and> c < PInf"
  shows "\<exists>ck. 0 \<le> k \<and> k < int (length ds) \<and>
     resharding_cost (ds ! nat k) src i = Inr ck \<and> ck < PInf \<and>
     (\<forall>j<length ds. \<forall>c. resharding_cost (ds ! j) src i = Inr c \<longrightarrow> ck \<le> c) \<and>
     (\<forall>j<nat k. \<forall>c. resharding_cost (ds ! j) src i = Inr c \<longrightarrow> ck < c)"
proof -
  from lowest_cost_spec[OF assms(1)] show ?thesis
  proof
    assume "k = - 1 \<and>
      (\<forall>n<length ds. \<forall>c. resharding_cost (ds ! n) src i = Inr c \<longrightarrow> \<not> c < PInf)"
    with assms(2) show ?thesis by blast
  next
    assume "\<exists>n<length ds. \<exists>ck. k = int (0 + n) \<and>
        resharding_cost (ds ! n) src i = Inr ck \<and> ck < PInf \<and>
        (\<forall>m<length ds. \<forall>c. resharding_cost (ds ! m) src i = Inr c \<longrightarrow> ck \<le> c) \<and>
        (\<forall>m<n. \<forall>c. resharding_cost (ds ! m) src i = Inr c \<longrightarrow> ck < c)"
    then obtain n ck where n: "n < length ds" and k: "k = int (0 + n)"
      and rk: "resharding_cost (ds ! n) src i = Inr ck" and lt: "ck < PInf"
      and mn: "\<forall>m<length ds. \<forall>c. resharding_cost (ds ! m) src i = Inr c \<longrightarrow> ck \<le> c"
      and fs: "\<forall>m<n. \<forall>c. resharding_cost (ds ! m) src i = Inr c \<longrightarrow> ck < c"
      by (elim exE conjE) (rule that)
    from k have nk: "nat k = n" by simp
    have "0 \<le> k \<and> k < int (length ds)" using k n by simp
    with rk lt mn fs nk show ?thesis by blast
  qed
qed

lemma list_getitem_last:
  assumes "xs \<noteq> []"
  shows "list_getitem xs (- 1) = Inr (last xs)"
proof -
  from assms have l: "0 < length xs" by simp
  then have n: "nat (int (length xs) + - 1) = length xs - 1" by arith
  from l have "- int (length xs) \<le> - 1" by arith
  with n assms show ?thesis
    by (simp add: list_getitem_def last_conv_nth)
qed

subsection \<open>The keys of the extra node costs\<close>

lemma extra_add_keys:
  assumes "extra_add ex n i v = Inr ex'"
  shows "fst ` set ex' = fst ` set ex"
proof -
  from assms obtain row row' where
    r: "map_of ex n = Some row" and e: "ex' = AList.update n row' ex"
    by (auto simp: extra_add_def dict_getitem_def split: option.splits sum.splits)
  from map_of_Some_key[OF r] have "insert n (fst ` set ex) = fst ` set ex" by blast
  with e show ?thesis by (simp add: AList.dom_update)
qed

lemma accrue_extra_keys:
  "accrue_extra ds src dst mm is ex = Inr ex' \<Longrightarrow> fst ` set ex' = fst ` set ex"
proof (induction "is" arbitrary: ex)
  case Nil
  then show ?case by simp
next
  case (Cons i "is")
  from Cons.prems obtain t target c ex1 where
    e1: "extra_add ex src (int i) c = Inr ex1"
    and rest: "(case map_of ex1 dst of
             None \<Rightarrow> accrue_extra ds src dst mm is ex1
           | Some dst_row \<Rightarrow>
               (case list_getitem dst_row t of
                  Inl e \<Rightarrow> Inl e
                | Inr d \<Rightarrow>
                    (case extra_add ex1 src (int i) d of
                       Inl e \<Rightarrow> Inl e
                     | Inr extra2 \<Rightarrow> accrue_extra ds src dst mm is extra2))) = Inr ex'"
    by (auto split: sum.splits)
  note k1 = extra_add_keys[OF e1]
  show ?case
  proof (cases "map_of ex1 dst")
    case None
    with rest have "accrue_extra ds src dst mm is ex1 = Inr ex'" by simp
    from Cons.IH[OF this] k1 show ?thesis by simp
  next
    case (Some drow)
    with rest obtain d ex2 where
      e2: "extra_add ex1 src (int i) d = Inr ex2"
      and run: "accrue_extra ds src dst mm is ex2 = Inr ex'"
      by (auto split: sum.splits)
    from Cons.IH[OF run] extra_add_keys[OF e2] k1 show ?thesis by simp
  qed
qed

lemma merge_node_extra_keys:
  assumes "merge_node s src dst = Inr s'"
  shows "fst ` set (extra_node_costs s') = insert src (fst ` set (extra_node_costs s))"
proof -
  from merge_node_Inr[OF assms] obtain mm n extra ec s3 where
    acc: "accrue_extra (strategies_vector s dst) src dst mm
       [0..<length (strategies_vector s src)]
       (AList.update src (replicate n 0) (extra_node_costs s)) = Inr extra"
    and cc: "connect_children src dst (((children s)(src := remove1 dst (children s src))) dst)
       (s\<lparr>extra_node_costs := extra,
          parents := (parents s)(dst := remove1 src (parents s dst)),
          children := (children s)(src := remove1 dst (children s src)),
          edge_costs := AList.delete (src, dst) ec\<rparr>) = Inr s3"
    and s': "s' = (if parents s3 dst = []
           then s3\<lparr>following_dict := AList.update dst src (following_dict s3),
                   children := (children s3)(dst := [])\<rparr>
           else s3)"
    by (elim exE conjE) (rule that)
  have "extra_node_costs s' = extra"
    using connect_children_frame[OF cc] s' by simp
  with accrue_extra_keys[OF acc] show ?thesis
    by (simp add: AList.dom_update)
qed

lemma merge_all_extra_keys:
  "merge_all ps s = Inr s' \<Longrightarrow>
     fst ` set (extra_node_costs s') = fst ` set (extra_node_costs s) \<union> fst ` set ps"
proof (induction ps arbitrary: s)
  case Nil
  then show ?case by simp
next
  case (Cons p ps)
  obtain a b where p: "p = (a, b)" by (cases p)
  with Cons.prems obtain s1 where
    m: "merge_node s a b = Inr s1" and run: "merge_all ps s1 = Inr s'"
    by (auto split: sum.splits)
  from merge_node_extra_keys[OF m] Cons.IH[OF run] p show ?case by auto
qed

subsection \<open>Following the absorption records\<close>

lemma following_relation_finite:
  "finite {(a, b). map_of fd a = Some b}"
proof -
  have "{(a, b). map_of fd a = Some b} \<subseteq> set fd"
    by (auto dest: map_of_SomeD)
  then show ?thesis by (rule finite_subset) simp
qed

lemma reindexing_src_acyclic:
  assumes "acyclic {(a, b). map_of fd a = Some b}"
  shows "\<exists>r. reindexing_src fd x = Some r \<and>
              (x, r) \<in> {(a, b). map_of fd a = Some b}\<^sup>* \<and> map_of fd r = None"
proof -
  let ?R = "{(a, b). map_of fd a = Some b}"
  have "wf (?R\<inverse>)"
    using following_relation_finite assms by (rule finite_acyclic_wf_converse)
  then show ?thesis
  proof (induction x rule: wf_induct_rule)
    case (less x)
    show ?case
    proof (cases "map_of fd x")
      case None
      then have "reindexing_src fd x = Some x"
        by (subst reindexing_src.simps) simp
      with None show ?thesis by blast
    next
      case (Some nxt)
      then have step: "(x, nxt) \<in> ?R" by simp
      then have "(nxt, x) \<in> ?R\<inverse>" by simp
      from less.IH[OF this] obtain r where
        r: "reindexing_src fd nxt = Some r" and p: "(nxt, r) \<in> ?R\<^sup>*"
        and e: "map_of fd r = None"
        by (elim exE conjE) (rule that)
      from Some r have "reindexing_src fd x = Some r"
        by (subst reindexing_src.simps) simp
      moreover from step p have "(x, r) \<in> ?R\<^sup>*"
        by (rule converse_rtrancl_into_rtrancl)
      ultimately show ?thesis using e by blast
    qed
  qed
qed

lemma reindex_items_spec:
  assumes "\<forall>x. \<exists>r. reindexing_src fd x = Some r" and "distinct (map fst items)"
  shows "\<exists>fd'. reindex_items fd items acc = Inr fd' \<and>
     (\<forall>k. map_of fd' k =
        (case map_of items k of None \<Rightarrow> map_of acc k | Some x \<Rightarrow> reindexing_src fd x))"
  using assms(2)
proof (induction items arbitrary: acc)
  case Nil
  then show ?case by simp
next
  case (Cons p items)
  obtain d x where p: "p = (d, x)" by (cases p)
  from assms(1) obtain r where r: "reindexing_src fd x = Some r" by blast
  from Cons.prems p have dist: "distinct (map fst items)" and fresh: "d \<notin> fst ` set items"
    by auto
  from fresh have none: "map_of items d = None" by (simp add: map_of_None_iff)
  from Cons.IH[OF dist, of "AList.update d r acc"] obtain fd' where
    run: "reindex_items fd items (AList.update d r acc) = Inr fd'"
    and sp: "\<forall>k. map_of fd' k =
        (case map_of items k of None \<Rightarrow> map_of (AList.update d r acc) k
         | Some x \<Rightarrow> reindexing_src fd x)"
    by (elim exE conjE) (rule that)
  have "reindex_items fd (p # items) acc = Inr fd'"
    using p r run by simp
  moreover have "\<forall>k. map_of fd' k =
        (case map_of (p # items) k of None \<Rightarrow> map_of acc k | Some x \<Rightarrow> reindexing_src fd x)"
  proof
    fix k
    show "map_of fd' k =
        (case map_of (p # items) k of None \<Rightarrow> map_of acc k | Some x \<Rightarrow> reindexing_src fd x)"
    proof (cases "k = d")
      case True
      with sp none have "map_of fd' k = Some r" by (simp add: AList.update_conv')
      with True p r show ?thesis by simp
    next
      case False
      with sp have "map_of fd' k =
        (case map_of items k of None \<Rightarrow> map_of acc k | Some x \<Rightarrow> reindexing_src fd x)"
        by (simp add: AList.update_conv' split: option.splits)
      with False p show ?thesis by simp
    qed
  qed
  ultimately show ?case by blast
qed

lemma merge_node_following_distinct:
  assumes "merge_node s src dst = Inr s'" and "distinct (map fst (following_dict s))"
  shows "distinct (map fst (following_dict s'))"
proof -
  from merge_node_Inr[OF assms(1)] obtain extra ec s3 where
    cc: "connect_children src dst (((children s)(src := remove1 dst (children s src))) dst)
       (s\<lparr>extra_node_costs := extra,
          parents := (parents s)(dst := remove1 src (parents s dst)),
          children := (children s)(src := remove1 dst (children s src)),
          edge_costs := AList.delete (src, dst) ec\<rparr>) = Inr s3"
    and s': "s' = (if parents s3 dst = []
           then s3\<lparr>following_dict := AList.update dst src (following_dict s3),
                   children := (children s3)(dst := [])\<rparr>
           else s3)"
    by (elim exE conjE) (rule that)
  have "following_dict s3 = following_dict s"
    using connect_children_frame[OF cc] by simp
  with s' assms(2) show ?thesis
    by (simp add: AList.distinct_update)
qed

lemma merge_all_following_distinct:
  "merge_all ps s = Inr s' \<Longrightarrow> distinct (map fst (following_dict s)) \<Longrightarrow>
     distinct (map fst (following_dict s'))"
proof (induction ps arbitrary: s)
  case Nil
  then show ?case by simp
next
  case (Cons p ps)
  obtain a b where p: "p = (a, b)" by (cases p)
  with Cons.prems obtain s1 where
    m: "merge_node s a b = Inr s1" and run: "merge_all ps s1 = Inr s'"
    by (auto split: sum.splits)
  from Cons.IH[OF run merge_node_following_distinct[OF m Cons.prems(2)]] show ?case .
qed

subsection \<open>The matrices of the new node pairs\<close>

lemma derive_edge_cost_other:
  "derive_edge_cost ec op mm ps acc = Inr M \<Longrightarrow>
     key \<notin> (\<lambda>(i, j). (int i, int j)) ` set ps \<Longrightarrow> M key = acc key"
proof (induction ps arbitrary: acc)
  case Nil
  then show ?case by simp
next
  case (Cons p ps)
  obtain i j where p: "p = (i, j)" by (cases p)
  with Cons.prems(1) obtain v where
    run: "derive_edge_cost ec op mm ps (acc((int i, int j) \<mapsto> v)) = Inr M"
    by (auto split: sum.splits option.splits)
  from Cons.prems(2) p have "key \<noteq> (int i, int j)"
    and "key \<notin> (\<lambda>(i, j). (int i, int j)) ` set ps" by auto
  with Cons.IH[OF run] show ?case by simp
qed

lemma derive_edge_cost_entries:
  "derive_edge_cost ec op mm ps acc = Inr M \<Longrightarrow> (i, j) \<in> set ps \<Longrightarrow>
     \<exists>old v. map_of ec op = Some old \<and> i < length mm \<and>
             old (mm ! i, int j) = Some v \<and> M (int i, int j) = Some v"
proof (induction ps arbitrary: acc)
  case Nil
  then show ?case by simp
next
  case (Cons p ps)
  obtain i0 j0 where p: "p = (i0, j0)" by (cases p)
  with Cons.prems(1) obtain old v where
    il: "i0 < length mm" and old: "map_of ec op = Some old"
    and v: "old (mm ! i0, int j0) = Some v"
    and run: "derive_edge_cost ec op mm ps (acc((int i0, int j0) \<mapsto> v)) = Inr M"
    by (auto simp: merge_map_getitem_def dict_getitem_def split: sum.splits option.splits if_splits)
  show ?case
  proof (cases "(i, j) \<in> set ps")
    case True
    from Cons.IH[OF run True] show ?thesis .
  next
    case False
    with Cons.prems(2) p have eq: "i = i0" "j = j0" by auto
    from False have "(int i, int j) \<notin> (\<lambda>(i, j). (int i, int j)) ` set ps" by auto
    from derive_edge_cost_other[OF run this] eq have "M (int i, int j) = Some v" by simp
    with il old v eq show ?thesis by blast
  qed
qed

lemma add_new_pairs_keys:
  "add_new_pairs lens src dst mm cs ec = Inr ec' \<Longrightarrow>
     fst ` set ec' = fst ` set ec \<union> (\<lambda>c. (src, c)) ` set cs"
proof (induction cs arbitrary: ec)
  case Nil
  then show ?case by simp
next
  case (Cons c cs)
  show ?case
  proof (cases "map_of ec (src, c)")
    case None
    with Cons.prems obtain em where
      run: "add_new_pairs lens src dst mm cs (AList.update (src, c) em ec) = Inr ec'"
      by (auto split: sum.splits)
    from Cons.IH[OF run] show ?thesis by (auto simp: AList.dom_update)
  next
    case (Some a)
    with Cons.prems have run: "add_new_pairs lens src dst mm cs ec = Inr ec'" by simp
    from Some have "(src, c) \<in> fst ` set ec" by (rule map_of_Some_key)
    with Cons.IH[OF run] show ?thesis by auto
  qed
qed

lemma add_new_pairs_derived:
  "add_new_pairs lens src dst mm cs ec = Inr ec' \<Longrightarrow> src \<noteq> dst \<Longrightarrow> c \<in> set cs \<Longrightarrow>
     map_of ec (src, c) = None \<Longrightarrow> lens src = Some n \<Longrightarrow> lens c = Some m \<Longrightarrow>
     i < n \<Longrightarrow> j < m \<Longrightarrow>
     \<exists>M old v. map_of ec' (src, c) = Some M \<and> map_of ec (dst, c) = Some old \<and>
        i < length mm \<and> old (mm ! i, int j) = Some v \<and> M (int i, int j) = Some v"
proof (induction cs arbitrary: ec)
  case Nil
  then show ?case by simp
next
  case (Cons c0 cs)
  show ?case
  proof (cases "c0 = c")
    case True
    from Cons.prems(1,4,5,6,7) True obtain M where
      d: "derive_edge_cost ec (dst, c) mm (List.product [0..<n] [0..<m]) Map.empty = Inr M"
      and run: "add_new_pairs lens src dst mm cs (AList.update (src, c) M ec) = Inr ec'"
      by (auto simp: index_pairs_def split: sum.splits if_splits)
    from Cons.prems(7,8) have "(i, j) \<in> set (List.product [0..<n] [0..<m])" by simp
    from derive_edge_cost_entries[OF d this] obtain old v where
      o: "map_of ec (dst, c) = Some old" and il: "i < length mm"
      and v: "old (mm ! i, int j) = Some v" and mv: "M (int i, int j) = Some v"
      by (elim exE conjE) (rule that)
    have "map_of (AList.update (src, c) M ec) (src, c) = Some M"
      by (simp add: AList.update_conv')
    from add_new_pairs_keeps[OF run this] o il v mv show ?thesis by blast
  next
    case False
    with Cons.prems(3) have cin: "c \<in> set cs" by simp
    show ?thesis
    proof (cases "map_of ec (src, c0)")
      case None
      with Cons.prems(1) obtain M0 where
        run: "add_new_pairs lens src dst mm cs (AList.update (src, c0) M0 ec) = Inr ec'"
        by (auto split: sum.splits)
      have a: "map_of (AList.update (src, c0) M0 ec) (src, c) = None"
        using False Cons.prems(4) by (simp add: AList.update_conv')
      have b: "map_of (AList.update (src, c0) M0 ec) (dst, c) = map_of ec (dst, c)"
        using Cons.prems(2) by (simp add: AList.update_conv')
      from Cons.IH[OF run Cons.prems(2) cin a Cons.prems(5,6,7,8)] b show ?thesis by simp
    next
      case (Some a)
      with Cons.prems(1) have run: "add_new_pairs lens src dst mm cs ec = Inr ec'" by simp
      from Cons.IH[OF run Cons.prems(2) cin Cons.prems(4,5,6,7,8)] show ?thesis .
    qed
  qed
qed

subsection \<open>The state after a merge that absorbs the destination node\<close>

lemma connect_children_popped_present:
  "connect_children src dst cs s = Inr s' \<Longrightarrow> parents s dst = [] \<Longrightarrow> dst \<notin> set cs \<Longrightarrow>
     \<forall>c\<in>set cs. map_of (edge_costs s) (dst, c) \<noteq> None"
proof (induction cs arbitrary: s)
  case Nil
  then show ?case by simp
next
  case (Cons c cs)
  define s2 where "s2 = (let s1 = (if c \<in> set (children s src) then s
                else s\<lparr>children := (children s)(src := children s src @ [c])\<rparr>) in
          (if src \<in> set (parents s1 c) then s1
                else s1\<lparr>parents := (parents s1)(c := parents s1 c @ [src])\<rparr>))"
  define t where "t = s2\<lparr>parents := (parents s2)(c := remove1 dst (parents s2 c)),
                         edge_costs := AList.delete (dst, c) (edge_costs s2)\<rparr>"
  from Cons.prems have cd: "c \<noteq> dst" by auto
  have p2: "parents s2 dst = []"
    using Cons.prems(2) cd by (simp add: s2_def Let_def)
  have e2: "edge_costs s2 = edge_costs s" by (simp add: s2_def Let_def)
  from Cons.prems(1) p2 have here: "map_of (edge_costs s2) (dst, c) \<noteq> None"
    and run: "connect_children src dst cs t = Inr s'"
    by (auto simp: s2_def t_def Let_def list_remove_def dict_getitem_def
        split: if_splits sum.splits option.splits)
  have pt: "parents t dst = []" using p2 cd by (simp add: t_def)
  from Cons.IH[OF run pt] Cons.prems(3)
  have "\<forall>c'\<in>set cs. map_of (edge_costs t) (dst, c') \<noteq> None" by simp
  then have "\<forall>c'\<in>set cs. map_of (edge_costs s) (dst, c') \<noteq> None"
    by (auto simp: t_def e2 AList.delete_conv' split: if_splits)
  with here e2 show ?case by simp
qed

lemma merge_node_absorbed_state:
  assumes "merge_node s src dst = Inr s'"
    and "dst \<notin> set (children s dst)"
    and "remove1 src (parents s dst) = []"
    and "\<forall>c\<in>set (children s dst). distinct (parents s c)"
  shows "\<exists>mm ec. src \<noteq> dst \<and>
     merge_map_of s src dst = Inr mm \<and>
     add_new_pairs (node_lens s) src dst mm (children s dst) (edge_costs s) = Inr ec \<and>
     map_of ec (src, dst) \<noteq> None \<and>
     (\<forall>c\<in>set (children s dst). map_of ec (dst, c) \<noteq> None) \<and>
     following_dict s' = AList.update dst src (following_dict s) \<and>
     (\<forall>k. map_of (edge_costs s') k =
        (if k = (src, dst) \<or> k \<in> (\<lambda>c. (dst, c)) ` set (children s dst) then None
         else map_of ec k))"
proof -
  from merge_node_Inr[OF assms(1)] obtain mm extra ec s3 where
    mm: "merge_map_of s src dst = Inr mm"
    and anp: "add_new_pairs (node_lens s) src dst mm (children s dst) (edge_costs s) = Inr ec"
    and dc: "dst \<in> set (children s src)"
    and pres: "map_of ec (src, dst) \<noteq> None"
    and cc: "connect_children src dst (((children s)(src := remove1 dst (children s src))) dst)
       (s\<lparr>extra_node_costs := extra,
          parents := (parents s)(dst := remove1 src (parents s dst)),
          children := (children s)(src := remove1 dst (children s src)),
          edge_costs := AList.delete (src, dst) ec\<rparr>) = Inr s3"
    and s': "s' = (if parents s3 dst = []
           then s3\<lparr>following_dict := AList.update dst src (following_dict s3),
                   children := (children s3)(dst := [])\<rparr>
           else s3)"
    by (elim exE conjE) (rule that)
  define s0 where "s0 = s\<lparr>extra_node_costs := extra,
          parents := (parents s)(dst := remove1 src (parents s dst)),
          children := (children s)(src := remove1 dst (children s src)),
          edge_costs := AList.delete (src, dst) ec\<rparr>"
  from dc assms(2) have ne: "src \<noteq> dst" by auto
  then have ch: "((children s)(src := remove1 dst (children s src))) dst = children s dst"
    by simp
  from cc have run: "connect_children src dst (children s dst) s0 = Inr s3"
    unfolding ch s0_def .
  have p0: "parents s0 dst = []" using assms(3) by (simp add: s0_def)
  have p0c: "\<And>c. c \<noteq> dst \<Longrightarrow> parents s0 c = parents s c" by (simp add: s0_def)
  have e0: "edge_costs s0 = AList.delete (src, dst) ec" by (simp add: s0_def)
  have f0: "following_dict s0 = following_dict s" by (simp add: s0_def)
  have p3: "parents s3 dst = []"
    using connect_children_parents_other[OF run assms(2)] p0 by simp
  have f3: "following_dict s3 = following_dict s"
    using connect_children_frame[OF run] f0 by simp
  from s' p3 have s'eq: "s' = s3\<lparr>following_dict := AList.update dst src (following_dict s3),
                   children := (children s3)(dst := [])\<rparr>" by simp
  have d0: "\<forall>c\<in>set (children s dst). distinct (parents s0 c)"
    using assms(2,4) p0c by metis
  have gone: "\<forall>c\<in>set (children s dst). map_of (edge_costs s3) (dst, c) = None"
    using connect_children_absorbed[OF run p0 assms(2) ne d0] by simp
  have there: "\<forall>c\<in>set (children s dst). map_of ec (dst, c) \<noteq> None"
    using connect_children_popped_present[OF run p0 assms(2)] ne
    by (auto simp: e0 AList.delete_conv' split: if_splits)
  have edges: "\<forall>k. map_of (edge_costs s') k =
        (if k = (src, dst) \<or> k \<in> (\<lambda>c. (dst, c)) ` set (children s dst) then None
         else map_of ec k)"
  proof
    fix k
    show "map_of (edge_costs s') k =
        (if k = (src, dst) \<or> k \<in> (\<lambda>c. (dst, c)) ` set (children s dst) then None
         else map_of ec k)"
    proof (cases "k \<in> (\<lambda>c. (dst, c)) ` set (children s dst)")
      case True
      with gone s'eq show ?thesis by auto
    next
      case False
      then have "\<forall>c\<in>set (children s dst). k \<noteq> (dst, c)" by auto
      from connect_children_edges_other[OF run this]
      have "map_of (edge_costs s3) k = map_of (AList.delete (src, dst) ec) k"
        by (simp add: e0)
      with False s'eq show ?thesis by (simp add: AList.delete_conv')
    qed
  qed
  have "following_dict s' = AList.update dst src (following_dict s)"
    using s'eq f3 by simp
  with ne mm anp pres there edges show ?thesis by blast
qed

subsection \<open>The cost of an assignment across an exact merge\<close>

lemma exact_merge_children:
  assumes "exact_merge s src dst \<sigma>"
  shows "\<forall>c\<in>set (children s dst). distinct (parents s c) \<and>
           map_of (edge_costs s) (src, c) = None \<and>
           (\<exists>m. node_lens s c = Some m \<and> 0 \<le> \<sigma> c \<and> \<sigma> c < int m)"
  using assms by (auto simp: exact_merge_def list_all_iff split: option.splits)

lemma exact_merge_map:
  assumes "exact_merge s src dst \<sigma>" and "merge_map_of s src dst = Inr mm"
  shows "nat (\<sigma> src) < length mm \<and> mm ! nat (\<sigma> src) = \<sigma> dst"
  using assms
  by (auto simp: exact_merge_def merge_map_getitem_def split: sum.splits if_splits)

lemma live_edge_cost_sum:
  "live_edge_cost s \<sigma> =
     sum (\<lambda>k. selected_entry (map_of (edge_costs s) k) (\<sigma> (fst k)) (\<sigma> (snd k)))
       (fst ` set (edge_costs s))"
  by (simp add: live_edge_cost_def case_prod_beta)

lemma merge_node_exact_edges:
  assumes m: "merge_node s src dst = Inr s'" and ex: "exact_merge s src dst \<sigma>"
  shows "\<exists>P S. live_edge_cost s \<sigma> =
                  P + (selected_entry (map_of (edge_costs s) (src, dst)) (\<sigma> src) (\<sigma> dst) + S) \<and>
               live_edge_cost s' \<sigma> = P + S"
proof -
  let ?cs = "children s dst"
  let ?E = "edge_costs s"
  let ?E' = "edge_costs s'"
  let ?K = "fst ` set ?E"
  let ?A = "(\<lambda>c. (src, c)) ` set ?cs"
  let ?Dc = "(\<lambda>c. (dst, c)) ` set ?cs"
  let ?Dall = "insert (src, dst) ?Dc"
  from ex have sole: "parents s dst = [src]" and nself: "dst \<notin> set ?cs"
    and s0: "0 \<le> \<sigma> src" and s1: "\<sigma> src < int (length (strategies_vector s src))"
    by (simp_all add: exact_merge_def)
  note la = exact_merge_children[OF ex]
  from sole have last: "remove1 src (parents s dst) = []" by simp
  from la have dist: "\<forall>c\<in>set ?cs. distinct (parents s c)" by blast
  from merge_node_absorbed_state[OF m nself last dist] obtain mm ec where
    ne: "src \<noteq> dst" and mm: "merge_map_of s src dst = Inr mm"
    and anp: "add_new_pairs (node_lens s) src dst mm ?cs ?E = Inr ec"
    and pres: "map_of ec (src, dst) \<noteq> None"
    and there: "\<forall>c\<in>set ?cs. map_of ec (dst, c) \<noteq> None"
    and edges: "\<forall>k. map_of ?E' k =
        (if k = (src, dst) \<or> k \<in> ?Dc then None else map_of ec k)"
    by (elim exE conjE) (rule that)
  from exact_merge_map[OF ex mm] have il: "nat (\<sigma> src) < length mm"
    and mi: "mm ! nat (\<sigma> src) = \<sigma> dst" by simp_all
  from merge_node_extra[OF m ne] obtain mmx row where
    nl: "node_lens s src = Some (length row)"
    and u: "\<forall>i<length (strategies_vector s src). i < length row \<and>
        (\<exists>target c. list_getitem (strategies_vector s dst) (mmx ! i) = Inr target \<and>
           resharding_cost target src i = Inr c \<and>
           (case map_of (extra_node_costs s) dst of
              None \<Rightarrow> row ! i = c
            | Some drow \<Rightarrow> \<exists>d. list_getitem drow (mmx ! i) = Inr d \<and> row ! i = c + d))"
    by (elim exE conjE) (rule that)
  from u have rl: "\<forall>i<length (strategies_vector s src). i < length row" by blast
  from s0 s1 rl have in_row: "nat (\<sigma> src) < length row" by simp
  define g where "g k = selected_entry (map_of ?E k) (\<sigma> (fst k)) (\<sigma> (snd k))" for k
  define g' where "g' k = selected_entry (map_of ?E' k) (\<sigma> (fst k)) (\<sigma> (snd k))" for k
  have L: "live_edge_cost s \<sigma> = sum g ?K"
    unfolding g_def by (rule live_edge_cost_sum)
  have L': "live_edge_cost s' \<sigma> = sum g' (fst ` set ?E')"
    unfolding g'_def by (rule live_edge_cost_sum)
  have keys_ec: "fst ` set ec = ?K \<union> ?A"
    by (rule add_new_pairs_keys[OF anp])
  have other: "map_of ec k = map_of ?E k" if "k \<notin> ?A" for k
  proof -
    from that have "\<forall>c\<in>set ?cs. k \<noteq> (src, c)" by blast
    then show ?thesis by (rule add_new_pairs_other[OF anp])
  qed
  have AK: "?A \<inter> ?K = {}"
    using la by (auto simp: map_of_None_iff)
  have AD: "?A \<inter> ?Dall = {}" using ne nself by auto
  have sdDc: "(src, dst) \<notin> ?Dc" using ne by auto
  have DK: "?Dall \<subseteq> ?K"
  proof
    fix k assume "k \<in> ?Dall"
    then have "k \<notin> ?A" using AD by blast
    from \<open>k \<in> ?Dall\<close> there pres have "map_of ec k \<noteq> None" by auto
    with other[OF \<open>k \<notin> ?A\<close>] have "map_of ?E k \<noteq> None" by simp
    then show "k \<in> ?K" by (simp add: map_of_None_iff)
  qed
  have K': "fst ` set ?E' = (?K - ?Dall) \<union> ?A"
  proof (rule set_eqI)
    fix k
    have "k \<in> fst ` set ?E' \<longleftrightarrow> map_of ?E' k \<noteq> None"
      by (simp add: map_of_None_iff)
    also have "\<dots> \<longleftrightarrow> k \<notin> ?Dall \<and> map_of ec k \<noteq> None"
      using edges[rule_format, of k] by (cases "k \<in> ?Dall") simp_all
    also have "\<dots> \<longleftrightarrow> k \<notin> ?Dall \<and> k \<in> ?K \<union> ?A"
      using keys_ec by (simp add: map_of_None_iff)
    also have "\<dots> \<longleftrightarrow> k \<in> (?K - ?Dall) \<union> ?A"
      using AD by blast
    finally show "k \<in> fst ` set ?E' \<longleftrightarrow> k \<in> (?K - ?Dall) \<union> ?A" .
  qed
  have finK: "finite ?K" by simp
  have finA: "finite ?A" by simp
  have split': "sum g' ((?K - ?Dall) \<union> ?A) = sum g' (?K - ?Dall) + sum g' ?A"
    by (rule sum.union_disjoint) (use finK finA AK in auto)
  have same: "sum g' (?K - ?Dall) = sum g (?K - ?Dall)"
  proof (rule sum.cong[OF refl])
    fix k assume k: "k \<in> ?K - ?Dall"
    then have "k \<notin> ?A" using AK by blast
    with k edges[rule_format, of k] other[of k] have "map_of ?E' k = map_of ?E k" by simp
    then show "g' k = g k" by (simp add: g_def g'_def)
  qed
  have point: "g' (src, c) = g (dst, c)" if cin: "c \<in> set ?cs" for c
  proof -
    from la cin obtain m' where fresh: "map_of ?E (src, c) = None"
      and lc: "node_lens s c = Some m'" and c0: "0 \<le> \<sigma> c" and c1: "\<sigma> c < int m'"
      by blast
    from c0 c1 have jm: "nat (\<sigma> c) < m'" by simp
    from add_new_pairs_derived[OF anp ne cin fresh nl lc in_row jm] obtain M old v where
      M: "map_of ec (src, c) = Some M" and old: "map_of ?E (dst, c) = Some old"
      and v: "old (mm ! nat (\<sigma> src), int (nat (\<sigma> c))) = Some v"
      and Mv: "M (int (nat (\<sigma> src)), int (nat (\<sigma> c))) = Some v"
      by (elim exE conjE) (rule that)
    from cin AD have "(src, c) \<notin> ?Dall" by blast
    with edges[rule_format, of "(src, c)"] M have "map_of ?E' (src, c) = Some M" by simp
    with Mv s0 c0 have "g' (src, c) = v"
      by (simp add: g'_def selected_entry_def)
    moreover from old v mi c0 have "g (dst, c) = v"
      by (simp add: g_def selected_entry_def)
    ultimately show ?thesis by simp
  qed
  have reA: "sum g' ?A = sum (g' \<circ> (\<lambda>c. (src, c))) (set ?cs)"
    by (rule sum.reindex) (simp add: inj_on_def)
  have reD: "sum g ?Dc = sum (g \<circ> (\<lambda>c. (dst, c))) (set ?cs)"
    by (rule sum.reindex) (simp add: inj_on_def)
  have "sum (g' \<circ> (\<lambda>c. (src, c))) (set ?cs) = sum (g \<circ> (\<lambda>c. (dst, c))) (set ?cs)"
    by (rule sum.cong[OF refl]) (simp add: point)
  with reA reD have ADc: "sum g' ?A = sum g ?Dc" by simp
  have splitK: "sum g ?K = sum g (?K - ?Dall) + sum g ?Dall"
    by (rule sum.subset_diff[OF DK finK])
  have insD: "sum g ?Dall = g (src, dst) + sum g ?Dc"
    by (rule sum.insert) (use sdDc in auto)
  have a: "live_edge_cost s \<sigma> = sum g (?K - ?Dall) + (g (src, dst) + sum g ?Dc)"
    using L splitK insD by simp
  have b: "live_edge_cost s' \<sigma> = sum g (?K - ?Dall) + sum g ?Dc"
    using L' K' split' same ADc by simp
  have "g (src, dst) = selected_entry (map_of ?E (src, dst)) (\<sigma> src) (\<sigma> dst)"
    by (simp add: g_def)
  with a b show ?thesis by metis
qed

lemma merge_node_exact_extras:
  assumes m: "merge_node s src dst = Inr s'" and ex: "exact_merge s src dst \<sigma>"
  shows "extra_cost s' \<sigma> =
           selected_entry (map_of (edge_costs s) (src, dst)) (\<sigma> src) (\<sigma> dst) + extra_cost s \<sigma>"
proof -
  let ?X = "extra_node_costs s"
  let ?X' = "extra_node_costs s'"
  let ?Kx = "fst ` set ?X"
  let ?i = "nat (\<sigma> src)"
  from ex have sole: "parents s dst = [src]" and nself: "dst \<notin> set (children s dst)"
    and noextra: "charged_extra s \<sigma> src = 0"
    and live_src: "map_of (following_dict s) src = None"
    and live_dst: "map_of (following_dict s) dst = None"
    and s0: "0 \<le> \<sigma> src" and s1: "\<sigma> src < int (length (strategies_vector s src))"
    and d0: "0 \<le> \<sigma> dst"
    by (simp_all add: exact_merge_def)
  from ex obtain st where
    st: "list_getitem (strategies_vector s dst) (\<sigma> dst) = Inr st"
    and reg: "edge_cost_entry s src dst (\<sigma> src) (\<sigma> dst) = resharding_cost st src ?i"
    by (auto simp: exact_merge_def split: sum.splits)
  from sole have last: "remove1 src (parents s dst) = []" by simp
  from exact_merge_children[OF ex]
  have dist: "\<forall>c\<in>set (children s dst). distinct (parents s c)" by blast
  from merge_node_absorbed_state[OF m nself last dist] obtain mm where
    ne: "src \<noteq> dst" and mm: "merge_map_of s src dst = Inr mm"
    and fd': "following_dict s' = AList.update dst src (following_dict s)"
    by (elim exE conjE) (rule that)
  from exact_merge_map[OF ex mm] have mi: "mm ! ?i = \<sigma> dst" by simp
  from merge_node_extra[OF m ne] obtain mmx row where
    mmx: "merge_map_of s src dst = Inr mmx"
    and r: "map_of ?X' src = Some row"
    and o: "\<forall>n. n \<noteq> src \<longrightarrow> map_of ?X' n = map_of ?X n"
    and keys: "fst ` set ?X' = insert src ?Kx"
    and u: "\<forall>i<length (strategies_vector s src). i < length row \<and>
        (\<exists>target c. list_getitem (strategies_vector s dst) (mmx ! i) = Inr target \<and>
           resharding_cost target src i = Inr c \<and>
           (case map_of ?X dst of
              None \<Rightarrow> row ! i = c
            | Some drow \<Rightarrow> \<exists>d. list_getitem drow (mmx ! i) = Inr d \<and> row ! i = c + d))"
    by (elim exE conjE) (rule that)
  from mm mmx have mmeq: "mmx = mm" by simp
  from s0 s1 have il: "?i < length (strategies_vector s src)" by simp
  with u have "?i < length row \<and>
        (\<exists>target c. list_getitem (strategies_vector s dst) (mmx ! ?i) = Inr target \<and>
           resharding_cost target src ?i = Inr c \<and>
           (case map_of ?X dst of
              None \<Rightarrow> row ! ?i = c
            | Some drow \<Rightarrow> \<exists>d. list_getitem drow (mmx ! ?i) = Inr d \<and> row ! ?i = c + d))"
    by blast
  then obtain target c where ir: "?i < length row"
    and tg: "list_getitem (strategies_vector s dst) (\<sigma> dst) = Inr target"
    and rc: "resharding_cost target src ?i = Inr c"
    and v: "(case map_of ?X dst of
              None \<Rightarrow> row ! ?i = c
            | Some drow \<Rightarrow> \<exists>d. list_getitem drow (\<sigma> dst) = Inr d \<and> row ! ?i = c + d)"
    unfolding mmeq mi by (elim exE conjE) (rule that)
  from st tg have "st = target" by simp
  with reg rc have "edge_cost_entry s src dst (\<sigma> src) (\<sigma> dst) = Inr c" by simp
  then have sel: "selected_entry (map_of (edge_costs s) (src, dst)) (\<sigma> src) (\<sigma> dst) = c"
    by (auto simp: edge_cost_entry_def get_edge_cost_def dict_getitem_def selected_entry_def
        split: option.splits sum.splits)
  define h where "h n = charged_extra s \<sigma> n" for n
  define h' where "h' n = charged_extra s' \<sigma> n" for n
  let ?Kr = "?Kx - {src}"
  have E: "extra_cost s \<sigma> = sum h ?Kr"
  proof (cases "src \<in> ?Kx")
    case True
    then have "sum h ?Kx = h src + sum h ?Kr"
      by (intro sum.remove) auto
    with noextra show ?thesis by (simp add: extra_cost_def h_def)
  next
    case False
    then have "?Kr = ?Kx" by blast
    then show ?thesis by (simp add: extra_cost_def h_def)
  qed
  have "extra_cost s' \<sigma> = sum h' (insert src ?Kr)"
    by (simp add: extra_cost_def h'_def keys)
  also have "\<dots> = h' src + sum h' ?Kr"
    by (rule sum.insert) auto
  finally have E': "extra_cost s' \<sigma> = h' src + sum h' ?Kr" .
  have fsrc: "map_of (following_dict s') src = None"
    using ne live_src by (simp add: fd' AList.update_conv')
  have "list_getitem row (\<sigma> src) = Inr (row ! ?i)"
    using s0 ir by (simp add: list_getitem_def)
  with fsrc r have hsrc: "h' src = row ! ?i"
    by (simp add: h'_def charged_extra_def)
  have hdst: "h' dst = 0"
    by (simp add: h'_def charged_extra_def fd' AList.update_conv')
  have hother: "h' n = h n" if "n \<in> ?Kr" "n \<noteq> dst" for n
  proof -
    from that have "n \<noteq> src" by blast
    with o have "map_of ?X' n = map_of ?X n" by blast
    moreover have "map_of (following_dict s') n = map_of (following_dict s) n"
      using that(2) by (simp add: fd' AList.update_conv')
    ultimately show ?thesis
      by (simp add: h_def h'_def charged_extra_def split: option.splits)
  qed
  show ?thesis
  proof (cases "map_of ?X dst")
    case None
    then have "dst \<notin> ?Kr" by (simp add: map_of_None_iff)
    then have "sum h' ?Kr = sum h ?Kr"
      by (intro sum.cong[OF refl] hother) auto
    moreover from v None have "row ! ?i = c" by simp
    ultimately show ?thesis using E E' hsrc sel by simp
  next
    case (Some drow)
    then have "dst \<in> ?Kx" by (rule map_of_Some_key)
    with ne have dK: "dst \<in> ?Kr" by blast
    from v Some obtain d where d: "list_getitem drow (\<sigma> dst) = Inr d"
      and ri: "row ! ?i = c + d" by auto
    have hd: "h dst = d"
      using live_dst Some d by (simp add: h_def charged_extra_def)
    have a: "sum h ?Kr = h dst + sum h (?Kr - {dst})"
      by (rule sum.remove) (use dK in auto)
    have b: "sum h' ?Kr = h' dst + sum h' (?Kr - {dst})"
      by (rule sum.remove) (use dK in auto)
    have "sum h' (?Kr - {dst}) = sum h (?Kr - {dst})"
      by (intro sum.cong[OF refl] hother) auto
    with a b hdst hd have "sum h' ?Kr = sum h (?Kr - {dst})"
      and "sum h ?Kr = d + sum h (?Kr - {dst})" by simp_all
    with E E' hsrc ri sel show ?thesis by (simp add: add.assoc)
  qed
qed

lemma merge_node_exact_total:
  assumes "merge_node s src dst = Inr s'" and "exact_merge s src dst \<sigma>"
  shows "total_cost s' \<sigma> = total_cost s \<sigma>"
proof -
  from merge_node_exact_edges[OF assms] obtain P S where
    a: "live_edge_cost s \<sigma> =
          P + (selected_entry (map_of (edge_costs s) (src, dst)) (\<sigma> src) (\<sigma> dst) + S)"
    and b: "live_edge_cost s' \<sigma> = P + S"
    by (elim exE conjE) (rule that)
  from merge_node_exact_extras[OF assms] a b show ?thesis
    by (simp add: total_cost_def ac_simps)
qed

lemma exact_run_total:
  "merge_all ps s = Inr s' \<Longrightarrow> exact_run ps s \<sigma> \<Longrightarrow> total_cost s' \<sigma> = total_cost s \<sigma>"
proof (induction ps arbitrary: s)
  case Nil
  then show ?case by simp
next
  case (Cons p ps)
  obtain a b where p: "p = (a, b)" by (cases p)
  with Cons.prems(1) obtain s1 where
    m: "merge_node s a b = Inr s1" and run: "merge_all ps s1 = Inr s'"
    by (auto split: sum.splits)
  from Cons.prems(2) p m have ex: "exact_merge s a b \<sigma>" and rest: "exact_run ps s1 \<sigma>"
    by simp_all
  from Cons.IH[OF run rest] merge_node_exact_total[OF m ex] show ?case by simp
qed

lemma reindex_items_keys:
  "reindex_items fd items acc = Inr fd' \<Longrightarrow> fst ` set fd' = fst ` set acc \<union> fst ` set items"
proof (induction items arbitrary: acc)
  case Nil
  then show ?case by simp
next
  case (Cons p items)
  obtain d x where p: "p = (d, x)" by (cases p)
  with Cons.prems obtain r where
    run: "reindex_items fd items (AList.update d r acc) = Inr fd'"
    by (auto split: option.splits)
  from Cons.IH[OF run] p show ?case by (auto simp: AList.dom_update)
qed

lemma total_cost_cong:
  assumes "edge_costs s' = edge_costs s" and "extra_node_costs s' = extra_node_costs s"
    and "fst ` set (following_dict s') = fst ` set (following_dict s)"
  shows "total_cost s' \<sigma> = total_cost s \<sigma>"
proof -
  have iff: "map_of (following_dict s') n = None \<longleftrightarrow> map_of (following_dict s) n = None"
    for n using assms(3) by (simp add: map_of_None_iff)
  have "charged_extra s' \<sigma> n = charged_extra s \<sigma> n" for n
    using iff[of n] assms(2)
    by (cases "map_of (following_dict s') n"; cases "map_of (following_dict s) n")
      (simp_all add: charged_extra_def)
  with assms(1,2) show ?thesis
    by (simp add: total_cost_def live_edge_cost_def extra_cost_def)
qed

subsection \<open>The example graphs are graphs as the constructor builds them\<close>

lemma example_graphs_built:
  "new_cost_graph (strategies_of chain_leaves) chain_leaves True = Inr chain_graph"
  "new_cost_graph (strategies_of fork_leaves) fork_leaves True = Inr fork_graph"
  "new_cost_graph (strategies_of shared_leaves) shared_leaves True = Inr shared_graph"
  "new_cost_graph (strategies_of infeasible_leaves) infeasible_leaves True = Inr infeasible_graph"
  "new_cost_graph (strategies_of twin_leaves) twin_leaves True = Inr twin_graph"
  unfolding chain_graph_def fork_graph_def shared_graph_def infeasible_graph_def twin_graph_def
  by (rule succeeds_projr, code_simp)+

subsection \<open>A pair that is already a key keeps its matrix\<close>

lemma merge_node_existing_pair_kept:
  assumes "merge_node s src dst = Inr s'" and "src \<noteq> dst" and "c \<noteq> dst"
    and "map_of (edge_costs s) (src, c) = Some M"
  shows "map_of (edge_costs s') (src, c) = Some M"
proof -
  from merge_node_Inr[OF assms(1)] obtain mm extra ec s3 where
    anp: "add_new_pairs (node_lens s) src dst mm (children s dst) (edge_costs s) = Inr ec"
    and cc: "connect_children src dst (((children s)(src := remove1 dst (children s src))) dst)
       (s\<lparr>extra_node_costs := extra,
          parents := (parents s)(dst := remove1 src (parents s dst)),
          children := (children s)(src := remove1 dst (children s src)),
          edge_costs := AList.delete (src, dst) ec\<rparr>) = Inr s3"
    and s': "s' = (if parents s3 dst = []
           then s3\<lparr>following_dict := AList.update dst src (following_dict s3),
                   children := (children s3)(dst := [])\<rparr>
           else s3)"
    by (elim exE conjE) (rule that)
  have "map_of ec (src, c) = Some M"
    by (rule add_new_pairs_keeps[OF anp assms(4)])
  moreover have "\<forall>c'\<in>set (((children s)(src := remove1 dst (children s src))) dst).
      (src, c) \<noteq> (dst, c')"
    using assms(2) by simp
  from connect_children_edges_other[OF cc this]
  have "map_of (edge_costs s3) (src, c) = map_of (AList.delete (src, dst) ec) (src, c)"
    by simp
  ultimately have "map_of (edge_costs s3) (src, c) = Some M"
    using assms(3) by (simp add: AList.delete_conv')
  with s' show ?thesis by simp
qed

subsection \<open>The merges of a run, one after the other\<close>

lemma merge_all_trace:
  "merge_all ps s = Inr t \<Longrightarrow>
     \<exists>ts. length ts = Suc (length ps) \<and> ts ! 0 = s \<and> last ts = t \<and>
          (\<forall>i<length ps. merge_node (ts ! i) (fst (ps ! i)) (snd (ps ! i)) = Inr (ts ! Suc i))"
proof (induction ps arbitrary: s)
  case Nil
  then show ?case by (intro exI[of _ "[s]"]) simp
next
  case (Cons p ps)
  obtain a b where p: "p = (a, b)" by (cases p)
  with Cons.prems obtain s1 where
    m: "merge_node s a b = Inr s1" and run: "merge_all ps s1 = Inr t"
    by (auto split: sum.splits)
  from Cons.IH[OF run] obtain ts where
    len: "length ts = Suc (length ps)" and first: "ts ! 0 = s1" and fin: "last ts = t"
    and steps: "\<forall>i<length ps. merge_node (ts ! i) (fst (ps ! i)) (snd (ps ! i)) = Inr (ts ! Suc i)"
    by (elim exE conjE) (rule that)
  from len have ne: "ts \<noteq> []" by auto
  have "\<forall>i<length (p # ps).
          merge_node ((s # ts) ! i) (fst ((p # ps) ! i)) (snd ((p # ps) ! i)) =
            Inr ((s # ts) ! Suc i)"
  proof (intro allI impI)
    fix i assume i: "i < length (p # ps)"
    show "merge_node ((s # ts) ! i) (fst ((p # ps) ! i)) (snd ((p # ps) ! i)) =
            Inr ((s # ts) ! Suc i)"
    proof (cases i)
      case 0
      with m p first show ?thesis by simp
    next
      case (Suc j)
      with i have "j < length ps" by simp
      with steps Suc show ?thesis by simp
    qed
  qed
  moreover have "length (s # ts) = Suc (length (p # ps))" using len by simp
  moreover have "(s # ts) ! 0 = s" by simp
  moreover have "last (s # ts) = t" using ne fin by simp
  ultimately show ?case by blast
qed

lemma merge_all_append:
  "merge_all (ps @ [(a, b)]) s = Inr t \<Longrightarrow>
     \<exists>u. merge_all ps s = Inr u \<and> merge_node u a b = Inr t"
proof (induction ps arbitrary: s)
  case Nil
  then show ?case by (auto split: sum.splits)
next
  case (Cons p ps)
  obtain c d where p: "p = (c, d)" by (cases p)
  with Cons.prems obtain s1 where
    m: "merge_node s c d = Inr s1" and run: "merge_all (ps @ [(a, b)]) s1 = Inr t"
    by (auto split: sum.splits)
  from Cons.IH[OF run] m p show ?case by simp
qed

lemma raised_Inl: "raised r = Some e \<Longrightarrow> r = Inl e"
  by (cases r) (simp_all add: raised_def)

section \<open>Claims\<close>

text \<open>
  C8. \<^verbatim>\<open>get_edge_cost(src, dst)\<close> returns the stored matrix exactly when the pair is a key
  of the edge-cost table, and raises KeyError for every other pair: a pair that no element
  of \<^verbatim>\<open>leaf_strategies\<close> declares as predecessor and node, the pair \<open>(src, dst)\<close> after
  \<^verbatim>\<open>merge_node(src, dst)\<close>, and every pair \<open>(dst, child)\<close> after a merge that left the
  destination node without parents. (The last part is for nodes that are not their own
  child and for parent lists without repetition.)
\<close>

theorem get_edge_cost_missing_edge:
  "(get_edge_cost s a b = Inr m \<longleftrightarrow> map_of (edge_costs s) (a, b) = Some m) \<and>
   ((a, b) \<notin> fst ` set (edge_costs s) \<longrightarrow> get_edge_cost s a b = Inl KeyError) \<and>
   (new_cost_graph sv leaves flag = Inr g \<longrightarrow>
      \<not> (\<exists>v\<in>set leaves. leaf_node v = b \<and> a \<in> set (predecessor_nodes v)) \<longrightarrow>
      get_edge_cost g a b = Inl KeyError) \<and>
   (merge_node s src dst = Inr s' \<longrightarrow>
      get_edge_cost s' src dst = Inl KeyError \<and>
      (remove1 src (parents s dst) = [] \<longrightarrow> dst \<notin> set (children s dst) \<longrightarrow>
       (\<forall>c\<in>set (children s dst). distinct (parents s c)) \<longrightarrow>
       (\<forall>c\<in>set (children s dst). get_edge_cost s' dst c = Inl KeyError)))"
proof (intro conjI impI)
  show "get_edge_cost s a b = Inr m \<longleftrightarrow> map_of (edge_costs s) (a, b) = Some m"
    by (simp add: get_edge_cost_def dict_getitem_def split: option.splits)
next
  assume "(a, b) \<notin> fst ` set (edge_costs s)"
  then have "map_of (edge_costs s) (a, b) = None" by (simp add: map_of_None_iff)
  then show "get_edge_cost s a b = Inl KeyError"
    by (simp add: get_edge_cost_def dict_getitem_def)
next
  assume g: "new_cost_graph sv leaves flag = Inr g"
    and nd: "\<not> (\<exists>v\<in>set leaves. leaf_node v = b \<and> a \<in> set (predecessor_nodes v))"
  from new_cost_graph_keys[OF g, of a b] nd have "(a, b) \<notin> fst ` set (edge_costs g)" by blast
  then have "map_of (edge_costs g) (a, b) = None" by (simp add: map_of_None_iff)
  then show "get_edge_cost g a b = Inl KeyError"
    by (simp add: get_edge_cost_def dict_getitem_def)
next
  assume m: "merge_node s src dst = Inr s'"
  from merge_node_edge_popped[OF m] show "get_edge_cost s' src dst = Inl KeyError"
    by (simp add: get_edge_cost_def dict_getitem_def)
next
  assume m: "merge_node s src dst = Inr s'"
    and last: "remove1 src (parents s dst) = []"
    and nself: "dst \<notin> set (children s dst)"
    and dist: "\<forall>c\<in>set (children s dst). distinct (parents s c)"
  from merge_node_Inr[OF m] obtain extra ec s3 where
    dc: "dst \<in> set (children s src)"
    and cc: "connect_children src dst (((children s)(src := remove1 dst (children s src))) dst)
       (s\<lparr>extra_node_costs := extra,
          parents := (parents s)(dst := remove1 src (parents s dst)),
          children := (children s)(src := remove1 dst (children s src)),
          edge_costs := AList.delete (src, dst) ec\<rparr>) = Inr s3"
    and s': "s' = (if parents s3 dst = []
           then s3\<lparr>following_dict := AList.update dst src (following_dict s3),
                   children := (children s3)(dst := [])\<rparr>
           else s3)"
    by blast
  from dc nself have ne: "src \<noteq> dst" by auto
  then have ch: "((children s)(src := remove1 dst (children s src))) dst = children s dst"
    by simp
  have "\<forall>c\<in>set (children s dst).
          dst \<notin> set (parents s3 c) \<and> map_of (edge_costs s3) (dst, c) = None"
    using connect_children_absorbed[OF cc[unfolded ch] _ nself ne] last dist nself
    by auto
  then show "\<forall>c\<in>set (children s dst). get_edge_cost s' dst c = Inl KeyError"
    using s' by (simp add: get_edge_cost_def dict_getitem_def)
qed

theorem get_edge_cost_missing_edge_witness:
  "get_edge_cost chain_graph 0 1 = Inr (projr (get_edge_cost chain_graph 0 1)) \<and>
   map_of (edge_costs chain_graph) (0, 1) = Some (projr (get_edge_cost chain_graph 0 1)) \<and>
   (0, 2) \<notin> fst ` set (edge_costs chain_graph) \<and>
   get_edge_cost chain_graph 0 2 = Inl KeyError \<and>
   new_cost_graph (strategies_of chain_leaves) chain_leaves True = Inr chain_graph \<and>
   merge_node chain_graph 1 2 = Inr (projr (merge_node chain_graph 1 2)) \<and>
   remove1 1 (parents chain_graph 2) = [] \<and>
   2 \<notin> set (children chain_graph 2) \<and>
   children chain_graph 2 = [3] \<and>
   distinct (parents chain_graph 3) \<and>
   get_edge_cost (projr (merge_node chain_graph 1 2)) 1 2 = Inl KeyError \<and>
   get_edge_cost (projr (merge_node chain_graph 1 2)) 2 3 = Inl KeyError"
proof -
  have g: "new_cost_graph (strategies_of chain_leaves) chain_leaves True = Inr chain_graph"
    unfolding chain_graph_def by (rule succeeds_projr) code_simp
  have e01: "get_edge_cost chain_graph 0 1 = Inr (projr (get_edge_cost chain_graph 0 1))"
    by (rule succeeds_projr) code_simp
  have n02: "(0, 2) \<notin> fst ` set (edge_costs chain_graph)"
    by code_simp
  have nd: "\<not> (\<exists>v\<in>set chain_leaves. leaf_node v = 2 \<and> 0 \<in> set (predecessor_nodes v))"
    by code_simp
  have m: "merge_node chain_graph 1 2 = Inr (projr (merge_node chain_graph 1 2))"
    by (rule succeeds_projr) code_simp
  have last: "remove1 1 (parents chain_graph 2) = []"
    by code_simp
  have nself: "2 \<notin> set (children chain_graph 2)"
    by code_simp
  have ch: "children chain_graph 2 = [3]"
    by code_simp
  have dist: "distinct (parents chain_graph 3)"
    by code_simp
  from get_edge_cost_missing_edge[of chain_graph 0 1 "projr (get_edge_cost chain_graph 0 1)"
      "strategies_of chain_leaves" chain_leaves True chain_graph 1 2
      "projr (merge_node chain_graph 1 2)"]
  have a: "map_of (edge_costs chain_graph) (0, 1) = Some (projr (get_edge_cost chain_graph 0 1))"
    and b: "get_edge_cost (projr (merge_node chain_graph 1 2)) 1 2 = Inl KeyError"
    and c: "get_edge_cost (projr (merge_node chain_graph 1 2)) 2 3 = Inl KeyError"
    using e01 g m last nself ch dist by auto
  from get_edge_cost_missing_edge[of chain_graph 0 2 undefined
      "strategies_of chain_leaves" chain_leaves True chain_graph 1 2
      "projr (merge_node chain_graph 1 2)"]
  have d: "get_edge_cost chain_graph 0 2 = Inl KeyError"
    using n02 by blast
  show ?thesis using a b c d e01 g m last nself ch dist n02 by blast
qed

text \<open>
  C6. Let \<^verbatim>\<open>merge_node(src, dst)\<close> return, for a destination node that is not its own
  child and whose children have parent lists without repetition. If removing the source
  node leaves the destination node without parents, then afterwards the destination node
  has no children, no former child lists it among its parents, no edge
  \<open>(dst, child)\<close> can be queried, and \<^verbatim>\<open>following_dict[dst]\<close> is the source node. If
  the destination node keeps another parent, its children, its remaining parents, its
  place in the parents of its children, its outgoing edges and \<^verbatim>\<open>following_dict\<close> are
  as before.
\<close>

theorem merge_node_full_absorption:
  assumes "merge_node s src dst = Inr s'"
    and "dst \<notin> set (children s dst)"
    and "\<forall>c\<in>set (children s dst). distinct (parents s c)"
  shows "(remove1 src (parents s dst) = [] \<longrightarrow>
            children s' dst = [] \<and>
            (\<forall>c\<in>set (children s dst).
               dst \<notin> set (parents s' c) \<and> get_edge_cost s' dst c = Inl KeyError) \<and>
            map_of (following_dict s') dst = Some src) \<and>
         (remove1 src (parents s dst) \<noteq> [] \<longrightarrow>
            children s' dst = children s dst \<and>
            parents s' dst = remove1 src (parents s dst) \<and>
            (\<forall>c\<in>set (children s dst).
               (dst \<in> set (parents s c) \<longrightarrow> dst \<in> set (parents s' c)) \<and>
               get_edge_cost s' dst c = get_edge_cost s dst c) \<and>
            following_dict s' = following_dict s)"
proof -
  from merge_node_Inr[OF assms(1)] obtain mm extra ec s3 where
    dc: "dst \<in> set (children s src)"
    and anp: "add_new_pairs (node_lens s) src dst mm (children s dst) (edge_costs s) = Inr ec"
    and cc: "connect_children src dst (((children s)(src := remove1 dst (children s src))) dst)
       (s\<lparr>extra_node_costs := extra,
          parents := (parents s)(dst := remove1 src (parents s dst)),
          children := (children s)(src := remove1 dst (children s src)),
          edge_costs := AList.delete (src, dst) ec\<rparr>) = Inr s3"
    and s': "s' = (if parents s3 dst = []
           then s3\<lparr>following_dict := AList.update dst src (following_dict s3),
                   children := (children s3)(dst := [])\<rparr>
           else s3)"
    by blast
  define s0 where "s0 = s\<lparr>extra_node_costs := extra,
          parents := (parents s)(dst := remove1 src (parents s dst)),
          children := (children s)(src := remove1 dst (children s src)),
          edge_costs := AList.delete (src, dst) ec\<rparr>"
  from dc assms(2) have ne: "src \<noteq> dst" by auto
  then have ch: "((children s)(src := remove1 dst (children s src))) dst = children s dst"
    by simp
  from cc have run: "connect_children src dst (children s dst) s0 = Inr s3"
    unfolding ch s0_def .
  have p0: "parents s0 dst = remove1 src (parents s dst)" by (simp add: s0_def)
  have p0c: "\<And>c. c \<noteq> dst \<Longrightarrow> parents s0 c = parents s c" by (simp add: s0_def)
  have c0: "children s0 dst = children s dst" using ne by (simp add: s0_def)
  have f0: "following_dict s0 = following_dict s" by (simp add: s0_def)
  have p3: "parents s3 dst = remove1 src (parents s dst)"
    using connect_children_parents_other[OF run assms(2)] p0 by simp
  have c3: "children s3 dst = children s dst"
    using connect_children_children_other[OF run, of dst] ne c0 by simp
  have f3: "following_dict s3 = following_dict s"
    using connect_children_frame[OF run] f0 by simp
  show ?thesis
  proof (intro conjI impI)
    assume last: "remove1 src (parents s dst) = []"
    then have s'eq: "s' = s3\<lparr>following_dict := AList.update dst src (following_dict s3),
                   children := (children s3)(dst := [])\<rparr>"
      using s' p3 by simp
    show "children s' dst = []" using s'eq by simp
    show "map_of (following_dict s') dst = Some src"
      using s'eq by (simp add: AList.update_conv')
    have d0: "\<forall>c\<in>set (children s dst). distinct (parents s0 c)"
      using assms(2,3) p0c by (metis)
    have "\<forall>c\<in>set (children s dst).
            dst \<notin> set (parents s3 c) \<and> map_of (edge_costs s3) (dst, c) = None"
      using connect_children_absorbed[OF run _ assms(2) ne d0] p0 last by simp
    then show "\<forall>c\<in>set (children s dst).
                 dst \<notin> set (parents s' c) \<and> get_edge_cost s' dst c = Inl KeyError"
      using s'eq by (simp add: get_edge_cost_def dict_getitem_def)
  next
    assume keep: "remove1 src (parents s dst) \<noteq> []"
    then have s'eq: "s' = s3" using s' p3 by simp
    show "children s' dst = children s dst" using s'eq c3 by simp
    show "parents s' dst = remove1 src (parents s dst)" using s'eq p3 by simp
    show "following_dict s' = following_dict s" using s'eq f3 by simp
    from keep p0 have "parents s0 dst \<noteq> []" by simp
    from connect_children_retained[OF run this assms(2)]
    have e3: "edge_costs s3 = edge_costs s0"
      and sub: "\<And>c. set (parents s0 c) \<subseteq> set (parents s3 c)" by auto
    show "\<forall>c\<in>set (children s dst).
            (dst \<in> set (parents s c) \<longrightarrow> dst \<in> set (parents s' c)) \<and>
            get_edge_cost s' dst c = get_edge_cost s dst c"
    proof
      fix c assume cin: "c \<in> set (children s dst)"
      with assms(2) have cne: "c \<noteq> dst" by auto
      have "map_of (edge_costs s3) (dst, c) = map_of ec (dst, c)"
        using e3 ne by (simp add: s0_def)
      also have "\<dots> = map_of (edge_costs s) (dst, c)"
        using add_new_pairs_other[OF anp, of "(dst, c)"] ne by simp
      finally have "get_edge_cost s' dst c = get_edge_cost s dst c"
        using s'eq by (simp add: get_edge_cost_def dict_getitem_def)
      moreover have "dst \<in> set (parents s c) \<longrightarrow> dst \<in> set (parents s' c)"
        using sub[of c] p0c[OF cne] s'eq by auto
      ultimately show "(dst \<in> set (parents s c) \<longrightarrow> dst \<in> set (parents s' c)) \<and>
            get_edge_cost s' dst c = get_edge_cost s dst c" by simp
    qed
  qed
qed

theorem merge_node_full_absorption_witness:
  "merge_node chain_graph 1 2 = Inr (projr (merge_node chain_graph 1 2)) \<and>
   2 \<notin> set (children chain_graph 2) \<and>
   children chain_graph 2 = [3] \<and>
   distinct (parents chain_graph 3) \<and>
   remove1 1 (parents chain_graph 2) = [] \<and>
   children (projr (merge_node chain_graph 1 2)) 2 = [] \<and>
   2 \<notin> set (parents (projr (merge_node chain_graph 1 2)) 3) \<and>
   get_edge_cost (projr (merge_node chain_graph 1 2)) 2 3 = Inl KeyError \<and>
   map_of (following_dict (projr (merge_node chain_graph 1 2))) 2 = Some 1 \<and>
   merge_node fork_graph 1 2 = Inr (projr (merge_node fork_graph 1 2)) \<and>
   2 \<notin> set (children fork_graph 2) \<and>
   children fork_graph 2 = [3] \<and>
   distinct (parents fork_graph 3) \<and>
   remove1 1 (parents fork_graph 2) = [0] \<and>
   2 \<in> set (parents fork_graph 3) \<and>
   children (projr (merge_node fork_graph 1 2)) 2 = [3] \<and>
   parents (projr (merge_node fork_graph 1 2)) 2 = [0] \<and>
   2 \<in> set (parents (projr (merge_node fork_graph 1 2)) 3) \<and>
   get_edge_cost (projr (merge_node fork_graph 1 2)) 2 3 = get_edge_cost fork_graph 2 3 \<and>
   following_dict (projr (merge_node fork_graph 1 2)) = following_dict fork_graph"
proof -
  have m: "merge_node chain_graph 1 2 = Inr (projr (merge_node chain_graph 1 2))"
    by (rule succeeds_projr) code_simp
  have nself: "2 \<notin> set (children chain_graph 2)" by code_simp
  have ch: "children chain_graph 2 = [3]" by code_simp
  have dist: "distinct (parents chain_graph 3)" by code_simp
  have last: "remove1 1 (parents chain_graph 2) = []" by code_simp
  have m': "merge_node fork_graph 1 2 = Inr (projr (merge_node fork_graph 1 2))"
    by (rule succeeds_projr) code_simp
  have nself': "2 \<notin> set (children fork_graph 2)" by code_simp
  have ch': "children fork_graph 2 = [3]" by code_simp
  have dist': "distinct (parents fork_graph 3)" by code_simp
  have keep: "remove1 1 (parents fork_graph 2) = [0]" by code_simp
  have par: "2 \<in> set (parents fork_graph 3)" by code_simp
  have a: "children (projr (merge_node chain_graph 1 2)) 2 = [] \<and>
      2 \<notin> set (parents (projr (merge_node chain_graph 1 2)) 3) \<and>
      get_edge_cost (projr (merge_node chain_graph 1 2)) 2 3 = Inl KeyError \<and>
      map_of (following_dict (projr (merge_node chain_graph 1 2))) 2 = Some 1"
    using merge_node_full_absorption[OF m nself] ch dist last by simp
  have b: "children (projr (merge_node fork_graph 1 2)) 2 = [3] \<and>
      parents (projr (merge_node fork_graph 1 2)) 2 = [0] \<and>
      2 \<in> set (parents (projr (merge_node fork_graph 1 2)) 3) \<and>
      get_edge_cost (projr (merge_node fork_graph 1 2)) 2 3 = get_edge_cost fork_graph 2 3 \<and>
      following_dict (projr (merge_node fork_graph 1 2)) = following_dict fork_graph"
    using merge_node_full_absorption[OF m' nself'] ch' dist' keep par by simp
  show ?thesis using a b m nself ch dist last m' nself' ch' dist' keep par by blast
qed

text \<open>
  C9. Let \<^verbatim>\<open>simplify_graph\<close> return. The queue of merge pairs is then the list it was
  before the call. When \<^verbatim>\<open>simplify\<close> is set, the merges were applied in reverse order
  of the queue: there is a sequence of states, starting with the given state (its queue
  reversed), in which the step number \<open>i\<close> is \<^verbatim>\<open>merge_node\<close> on the pair at position
  \<open>length - 1 - i\<close> of the queue, and whose last state has the edge costs, extra node
  costs, parents and children of the result. In particular the pair first in the queue is
  merged last, so its edge is not in the result.
\<close>

theorem simplify_graph_restores_merge_pair:
  assumes "simplify_graph s = Inr s'"
  shows "merge_pair s' = merge_pair s \<and>
         (simplify s \<longrightarrow>
            (\<exists>ts. length ts = Suc (length (merge_pair s)) \<and>
                  ts ! 0 = s\<lparr>merge_pair := rev (merge_pair s)\<rparr> \<and>
                  (\<forall>i<length (merge_pair s).
                     merge_node (ts ! i)
                       (fst (merge_pair s ! (length (merge_pair s) - 1 - i)))
                       (snd (merge_pair s ! (length (merge_pair s) - 1 - i))) =
                     Inr (ts ! Suc i)) \<and>
                  edge_costs s' = edge_costs (last ts) \<and>
                  extra_node_costs s' = extra_node_costs (last ts) \<and>
                  parents s' = parents (last ts) \<and> children s' = children (last ts)) \<and>
            (\<forall>a b q. merge_pair s = (a, b) # q \<longrightarrow> get_edge_cost s' a b = Inl KeyError))"
proof (cases "simplify s")
  case False
  with assms show ?thesis by (simp add: simplify_graph_def)
next
  case True
  let ?q = "merge_pair s"
  let ?s1 = "s\<lparr>merge_pair := rev ?q\<rparr>"
  from True assms obtain t fd where
    t: "merge_all (rev ?q) ?s1 = Inr t"
    and s': "s' = t\<lparr>merge_pair := rev (merge_pair t), following_dict := fd\<rparr>"
    by (auto simp: simplify_graph_def Let_def split: sum.splits)
  have mp: "merge_pair t = rev ?q"
    using merge_all_merge_pair[OF t] by simp
  from merge_all_trace[OF t] obtain ts where
    len: "length ts = Suc (length (rev ?q))" and first: "ts ! 0 = ?s1" and fin: "last ts = t"
    and steps: "\<forall>i<length (rev ?q).
        merge_node (ts ! i) (fst (rev ?q ! i)) (snd (rev ?q ! i)) = Inr (ts ! Suc i)"
    by (elim exE conjE) (rule that)
  have order: "\<forall>i<length ?q.
        merge_node (ts ! i) (fst (?q ! (length ?q - 1 - i))) (snd (?q ! (length ?q - 1 - i))) =
          Inr (ts ! Suc i)"
  proof (intro allI impI)
    fix i assume i: "i < length ?q"
    then have eq: "rev ?q ! i = ?q ! (length ?q - 1 - i)" by (simp add: rev_nth)
    from i have "i < length (rev ?q)" by simp
    from steps[rule_format, OF this]
    show "merge_node (ts ! i) (fst (?q ! (length ?q - 1 - i)))
        (snd (?q ! (length ?q - 1 - i))) = Inr (ts ! Suc i)"
      unfolding eq .
  qed
  have trace: "\<exists>ts. length ts = Suc (length ?q) \<and> ts ! 0 = ?s1 \<and>
        (\<forall>i<length ?q.
           merge_node (ts ! i) (fst (?q ! (length ?q - 1 - i)))
             (snd (?q ! (length ?q - 1 - i))) = Inr (ts ! Suc i)) \<and>
        edge_costs s' = edge_costs (last ts) \<and>
        extra_node_costs s' = extra_node_costs (last ts) \<and>
        parents s' = parents (last ts) \<and> children s' = children (last ts)"
    using len first order fin s' by (intro exI[of _ ts]) simp
  have lastp: "\<forall>a b q. ?q = (a, b) # q \<longrightarrow> get_edge_cost s' a b = Inl KeyError"
  proof (intro allI impI)
    fix a b q assume q: "?q = (a, b) # q"
    with t have "merge_all (rev q @ [(a, b)]) ?s1 = Inr t" by simp
    from merge_all_append[OF this] obtain u where "merge_node u a b = Inr t" by blast
    from merge_node_edge_popped[OF this] s'
    show "get_edge_cost s' a b = Inl KeyError"
      by (simp add: get_edge_cost_def dict_getitem_def)
  qed
  from mp s' trace lastp show ?thesis by simp
qed

theorem simplify_graph_restores_merge_pair_witness:
  "simplify_graph chain_graph = Inr (projr (simplify_graph chain_graph)) \<and>
   simplify chain_graph \<and>
   merge_pair chain_graph = [(0, 1), (1, 2)] \<and>
   merge_pair (projr (simplify_graph chain_graph)) = [(0, 1), (1, 2)] \<and>
   (\<exists>ts. length ts = 3 \<and>
         ts ! 0 = chain_graph\<lparr>merge_pair := [(1, 2), (0, 1)]\<rparr> \<and>
         merge_node (ts ! 0) 1 2 = Inr (ts ! 1) \<and>
         merge_node (ts ! 1) 0 1 = Inr (ts ! 2) \<and>
         edge_costs (projr (simplify_graph chain_graph)) = edge_costs (ts ! 2)) \<and>
   get_edge_cost (projr (simplify_graph chain_graph)) 0 1 = Inl KeyError \<and>
   map fst (edge_costs (projr (simplify_graph chain_graph))) = [(0, 3)] \<and>
   edge_cost_entry (projr (simplify_graph chain_graph)) 0 3 0 1 = Inr (Fin 40) \<and>
   map_of (extra_node_costs (projr (simplify_graph chain_graph))) 0 = Some [Fin 2, Fin 5] \<and>
   following_dict (projr (simplify_graph chain_graph)) = [(2, 0), (1, 0)] \<and>
   merge_all (merge_pair chain_graph) chain_graph = Inl ValueError"
proof -
  let ?s' = "projr (simplify_graph chain_graph)"
  have r: "simplify_graph chain_graph = Inr ?s'"
    by (rule succeeds_projr) code_simp
  have f: "simplify chain_graph" by code_simp
  have q: "merge_pair chain_graph = [(0, 1), (1, 2)]" by code_simp
  have e: "map fst (edge_costs ?s') = [(0, 3)]" by code_simp
  have c: "edge_cost_entry ?s' 0 3 0 1 = Inr (Fin 40)" by code_simp
  have x: "map_of (extra_node_costs ?s') 0 = Some [Fin 2, Fin 5]" by code_simp
  have l: "following_dict ?s' = [(2, 0), (1, 0)]" by code_simp
  have w: "merge_all (merge_pair chain_graph) chain_graph = Inl ValueError"
    by (rule raised_Inl) code_simp
  note th = simplify_graph_restores_merge_pair[OF r]
  from th q have a: "merge_pair ?s' = [(0, 1), (1, 2)]" by simp
  from th f q have b: "get_edge_cost ?s' 0 1 = Inl KeyError" by blast
  from th f obtain ts where
    len: "length ts = Suc (length (merge_pair chain_graph))"
    and first: "ts ! 0 = chain_graph\<lparr>merge_pair := rev (merge_pair chain_graph)\<rparr>"
    and steps: "\<forall>i<length (merge_pair chain_graph).
        merge_node (ts ! i)
          (fst (merge_pair chain_graph ! (length (merge_pair chain_graph) - 1 - i)))
          (snd (merge_pair chain_graph ! (length (merge_pair chain_graph) - 1 - i))) =
        Inr (ts ! Suc i)"
    and ed: "edge_costs ?s' = edge_costs (last ts)"
    by blast
  from len q have len3: "length ts = 3" by simp
  then have "ts \<noteq> []" by auto
  then have "last ts = ts ! (length ts - 1)" by (rule last_conv_nth)
  with len3 have lst: "last ts = ts ! 2" by simp
  from steps[rule_format, of 0] q have s0: "merge_node (ts ! 0) 1 2 = Inr (ts ! 1)" by simp
  from steps[rule_format, of 1] q have s1: "merge_node (ts ! 1) 0 1 = Inr (ts ! 2)"
    by (simp add: numeral_2_eq_2)
  from first q have f0: "ts ! 0 = chain_graph\<lparr>merge_pair := [(1, 2), (0, 1)]\<rparr>" by simp
  from len3 f0 s0 s1 ed lst have tr: "\<exists>ts. length ts = 3 \<and>
         ts ! 0 = chain_graph\<lparr>merge_pair := [(1, 2), (0, 1)]\<rparr> \<and>
         merge_node (ts ! 0) 1 2 = Inr (ts ! 1) \<and>
         merge_node (ts ! 1) 0 1 = Inr (ts ! 2) \<and>
         edge_costs ?s' = edge_costs (ts ! 2)"
    by (intro exI[of _ ts]) simp
  from r f q a tr b e c x l w show ?thesis by blast
qed

text \<open>
  C5. After \<^verbatim>\<open>merge_node(src, dst)\<close> with distinct nodes, the list
  \<^verbatim>\<open>extra_node_costs[src]\<close> has, at every strategy index \<open>i\<close> of the source node, the
  resharding cost of the pair \<open>(src_i, dst_j)\<close> for \<open>j = merge_map[i]\<close>, plus the entry
  \<open>j\<close> of the list the destination node had in \<^verbatim>\<open>extra_node_costs\<close> before the merge,
  when it had one; nothing else is added.
\<close>

theorem merge_node_extra_cost_accrual:
  assumes "merge_node s src dst = Inr s'" and "src \<noteq> dst"
    and "i < length (strategies_vector s src)"
  shows "\<exists>mm row target c.
     merge_map_of s src dst = Inr mm \<and>
     map_of (extra_node_costs s') src = Some row \<and> i < length row \<and>
     list_getitem (strategies_vector s dst) (mm ! i) = Inr target \<and>
     resharding_cost target src i = Inr c \<and>
     (case map_of (extra_node_costs s) dst of
        None \<Rightarrow> row ! i = c
      | Some dst_row \<Rightarrow> \<exists>d. list_getitem dst_row (mm ! i) = Inr d \<and> row ! i = c + d)"
proof -
  from merge_node_extra[OF assms(1,2)] obtain mm row where
    mm: "merge_map_of s src dst = Inr mm"
    and r: "map_of (extra_node_costs s') src = Some row"
    and u: "\<forall>i<length (strategies_vector s src). i < length row \<and>
        (\<exists>target c. list_getitem (strategies_vector s dst) (mm ! i) = Inr target \<and>
           resharding_cost target src i = Inr c \<and>
           (case map_of (extra_node_costs s) dst of
              None \<Rightarrow> row ! i = c
            | Some drow \<Rightarrow> \<exists>d. list_getitem drow (mm ! i) = Inr d \<and> row ! i = c + d))"
    by (elim exE conjE) (rule that)
  from u assms(3) have "i < length row \<and>
        (\<exists>target c. list_getitem (strategies_vector s dst) (mm ! i) = Inr target \<and>
           resharding_cost target src i = Inr c \<and>
           (case map_of (extra_node_costs s) dst of
              None \<Rightarrow> row ! i = c
            | Some drow \<Rightarrow> \<exists>d. list_getitem drow (mm ! i) = Inr d \<and> row ! i = c + d))"
    by blast
  with mm r show ?thesis by blast
qed

theorem merge_node_extra_cost_accrual_witness:
  "merge_node chain_graph 1 2 = Inr (projr (merge_node chain_graph 1 2)) \<and>
   merge_node (projr (merge_node chain_graph 1 2)) 0 1 =
     Inr (projr (merge_node (projr (merge_node chain_graph 1 2)) 0 1)) \<and>
   (0::nat) \<noteq> 1 \<and>
   (0::nat) < length (strategies_vector (projr (merge_node chain_graph 1 2)) 0) \<and>
   map_of (extra_node_costs (projr (merge_node chain_graph 1 2))) 1 = Some [Fin 3, Fin 1] \<and>
   (\<exists>mm row target c.
     merge_map_of (projr (merge_node chain_graph 1 2)) 0 1 = Inr mm \<and>
     map_of (extra_node_costs (projr (merge_node (projr (merge_node chain_graph 1 2)) 0 1))) 0
       = Some row \<and> 0 < length row \<and>
     list_getitem (strategies_vector (projr (merge_node chain_graph 1 2)) 1) (mm ! 0)
       = Inr target \<and>
     resharding_cost target 0 0 = Inr c \<and>
     (\<exists>d. list_getitem [Fin 3, Fin 1] (mm ! 0) = Inr d \<and> row ! 0 = c + d))"
proof -
  have m1: "merge_node chain_graph 1 2 = Inr (projr (merge_node chain_graph 1 2))"
    by (rule succeeds_projr) code_simp
  have m2: "merge_node (projr (merge_node chain_graph 1 2)) 0 1 =
     Inr (projr (merge_node (projr (merge_node chain_graph 1 2)) 0 1))"
    by (rule succeeds_projr) code_simp
  have ne: "(0::nat) \<noteq> 1" by simp
  have i: "(0::nat) < length (strategies_vector (projr (merge_node chain_graph 1 2)) 0)"
    by code_simp
  have e: "map_of (extra_node_costs (projr (merge_node chain_graph 1 2))) 1
      = Some [Fin 3, Fin 1]"
    by code_simp
  from merge_node_extra_cost_accrual[OF m2 ne i] e m1 m2 i show ?thesis
    by simp
qed

text \<open>
  C4, as claimed, fails where every cost of a row is \<^verbatim>\<open>math.inf\<close>: in the example, both
  strategies of node 1 cost \<^verbatim>\<open>math.inf\<close> against strategy 0 of node 0, so index 0 is
  the lowest minimising index, but the merge map holds \<open>-1\<close>.
\<close>

theorem merge_map_all_infeasible_counterexample:
  "merge_map_of infeasible_graph 0 1 = Inr [- 1, 0] \<and>
   length (strategies_vector infeasible_graph 1) = 2 \<and>
   resharding_cost (strategies_vector infeasible_graph 1 ! 0) 0 0 = Inr PInf \<and>
   resharding_cost (strategies_vector infeasible_graph 1 ! 1) 0 0 = Inr PInf"
  by code_simp

text \<open>
  C4, amended. For every strategy index \<open>i\<close> of the source node whose row has at least one
  cost below \<^verbatim>\<open>math.inf\<close>, \<^verbatim>\<open>merge_map[i]\<close> is an index \<open>j\<close> of the destination node's
  strategies whose cost is minimal in the row and below \<^verbatim>\<open>math.inf\<close>, and every earlier
  index has a strictly higher cost (the lowest minimising index).
\<close>

theorem merge_map_selects_lowest:
  assumes "merge_map_of s src dst = Inr mm"
    and "i < length (strategies_vector s src)"
    and "\<exists>j<length (strategies_vector s dst). \<exists>c.
           resharding_cost (strategies_vector s dst ! j) src i = Inr c \<and> c < PInf"
  shows "\<exists>ck. 0 \<le> mm ! i \<and> mm ! i < int (length (strategies_vector s dst)) \<and>
     resharding_cost (strategies_vector s dst ! nat (mm ! i)) src i = Inr ck \<and> ck < PInf \<and>
     (\<forall>j<length (strategies_vector s dst). \<forall>c.
        resharding_cost (strategies_vector s dst ! j) src i = Inr c \<longrightarrow> ck \<le> c) \<and>
     (\<forall>j<nat (mm ! i). \<forall>c.
        resharding_cost (strategies_vector s dst ! j) src i = Inr c \<longrightarrow> ck < c)"
proof -
  from merge_map_of_nth[OF assms(1,2)] have
    "lowest_cost (strategies_vector s dst) src i 0 PInf (- 1) = Inr (mm ! i)" by simp
  from lowest_cost_feasible[OF this assms(3)] show ?thesis .
qed

theorem merge_map_selects_lowest_witness:
  "merge_map_of chain_graph 0 1 = Inr [1, 0] \<and>
   (0::nat) < length (strategies_vector chain_graph 0) \<and>
   (1::nat) < length (strategies_vector chain_graph 1) \<and>
   resharding_cost (strategies_vector chain_graph 1 ! 1) 0 0 = Inr (Fin 1) \<and>
   Fin 1 < PInf \<and>
   (\<exists>ck. 0 \<le> [1, 0::int] ! 0 \<and> [1, 0] ! 0 < int (length (strategies_vector chain_graph 1)) \<and>
     resharding_cost (strategies_vector chain_graph 1 ! nat ([1, 0] ! 0)) 0 0 = Inr ck \<and>
     ck < PInf \<and>
     (\<forall>j<length (strategies_vector chain_graph 1). \<forall>c.
        resharding_cost (strategies_vector chain_graph 1 ! j) 0 0 = Inr c \<longrightarrow> ck \<le> c) \<and>
     (\<forall>j<nat ([1, 0] ! 0). \<forall>c.
        resharding_cost (strategies_vector chain_graph 1 ! j) 0 0 = Inr c \<longrightarrow> ck < c))"
proof -
  have mm: "merge_map_of chain_graph 0 1 = Inr [1, 0]" by code_simp
  have i: "(0::nat) < length (strategies_vector chain_graph 0)" by code_simp
  have j: "(1::nat) < length (strategies_vector chain_graph 1)" by code_simp
  have c: "resharding_cost (strategies_vector chain_graph 1 ! 1) 0 0 = Inr (Fin 1)"
    by code_simp
  have f: "Fin 1 < PInf" by simp
  from j c f have ex: "\<exists>j<length (strategies_vector chain_graph 1). \<exists>c.
           resharding_cost (strategies_vector chain_graph 1 ! j) 0 0 = Inr c \<and> c < PInf"
    by blast
  from merge_map_selects_lowest[OF mm i ex] mm i j c f show ?thesis by blast
qed

text \<open>
  C10. For a strategy index \<open>i\<close> of the source node: if every cost of row \<open>i\<close> is
  \<^verbatim>\<open>math.inf\<close>, then \<^verbatim>\<open>merge_map[i]\<close> is \<open>-1\<close>; \<^verbatim>\<open>merge_map[i]\<close> is an index of the
  destination node's strategies exactly when the row has a cost below \<^verbatim>\<open>math.inf\<close>;
  indexing the destination node's strategies with \<open>-1\<close> returns the last one; and when the
  merge returns although \<^verbatim>\<open>merge_map[i]\<close> is \<open>-1\<close>, the extra cost recorded for the
  source node at \<open>i\<close> is \<^verbatim>\<open>math.inf\<close>, read from that last strategy.
\<close>

theorem merge_map_all_infeasible_row:
  assumes "merge_map_of s src dst = Inr mm"
    and "i < length (strategies_vector s src)"
  shows "((\<forall>j<length (strategies_vector s dst).
             resharding_cost (strategies_vector s dst ! j) src i = Inr PInf) \<longrightarrow>
          mm ! i = - 1) \<and>
         ((0 \<le> mm ! i \<and> mm ! i < int (length (strategies_vector s dst))) \<longleftrightarrow>
          (\<exists>j<length (strategies_vector s dst). \<exists>c.
             resharding_cost (strategies_vector s dst ! j) src i = Inr c \<and> c < PInf)) \<and>
         (strategies_vector s dst \<noteq> [] \<longrightarrow>
          list_getitem (strategies_vector s dst) (- 1) = Inr (last (strategies_vector s dst))) \<and>
         (merge_node s src dst = Inr s' \<longrightarrow> src \<noteq> dst \<longrightarrow> mm ! i = - 1 \<longrightarrow>
          strategies_vector s dst \<noteq> [] \<and>
          resharding_cost (last (strategies_vector s dst)) src i = Inr PInf \<and>
          (\<exists>row. map_of (extra_node_costs s') src = Some row \<and> i < length row \<and>
                 row ! i = PInf))"
proof -
  let ?ds = "strategies_vector s dst"
  from merge_map_of_nth[OF assms(1,2)] have
    lc: "lowest_cost ?ds src i 0 PInf (- 1) = Inr (mm ! i)" by simp
  note sp = lowest_cost_spec[OF lc]
  note rd = lowest_cost_reads[OF lc]
  have none: "mm ! i = - 1 \<Longrightarrow>
      \<forall>n<length ?ds. \<forall>c. resharding_cost (?ds ! n) src i = Inr c \<longrightarrow> \<not> c < PInf"
    using sp by auto
  have some: "\<exists>j<length ?ds. \<exists>c. resharding_cost (?ds ! j) src i = Inr c \<and> c < PInf
      \<Longrightarrow> 0 \<le> mm ! i \<and> mm ! i < int (length ?ds)"
    using lowest_cost_feasible[OF lc] by blast
  have a: "(\<forall>j<length ?ds. resharding_cost (?ds ! j) src i = Inr PInf) \<longrightarrow> mm ! i = - 1"
    using sp by auto
  have b: "(0 \<le> mm ! i \<and> mm ! i < int (length ?ds)) \<longleftrightarrow>
          (\<exists>j<length ?ds. \<exists>c. resharding_cost (?ds ! j) src i = Inr c \<and> c < PInf)"
  proof
    assume "0 \<le> mm ! i \<and> mm ! i < int (length ?ds)"
    then have "mm ! i \<noteq> - 1" by simp
    with sp show "\<exists>j<length ?ds. \<exists>c. resharding_cost (?ds ! j) src i = Inr c \<and> c < PInf"
      by blast
  next
    assume "\<exists>j<length ?ds. \<exists>c. resharding_cost (?ds ! j) src i = Inr c \<and> c < PInf"
    then show "0 \<le> mm ! i \<and> mm ! i < int (length ?ds)" by (rule some)
  qed
  have c: "?ds \<noteq> [] \<longrightarrow> list_getitem ?ds (- 1) = Inr (last ?ds)"
    by (simp add: list_getitem_last)
  have d: "merge_node s src dst = Inr s' \<longrightarrow> src \<noteq> dst \<longrightarrow> mm ! i = - 1 \<longrightarrow>
          ?ds \<noteq> [] \<and> resharding_cost (last ?ds) src i = Inr PInf \<and>
          (\<exists>row. map_of (extra_node_costs s') src = Some row \<and> i < length row \<and>
                 row ! i = PInf)"
  proof (intro impI)
    assume m: "merge_node s src dst = Inr s'" and ne: "src \<noteq> dst" and neg: "mm ! i = - 1"
    from merge_node_extra[OF m ne] obtain mm' row where
      mm': "merge_map_of s src dst = Inr mm'"
      and r: "map_of (extra_node_costs s') src = Some row"
      and u: "\<forall>i<length (strategies_vector s src). i < length row \<and>
        (\<exists>target c. list_getitem ?ds (mm' ! i) = Inr target \<and>
           resharding_cost target src i = Inr c \<and>
           (case map_of (extra_node_costs s) dst of
              None \<Rightarrow> row ! i = c
            | Some drow \<Rightarrow> \<exists>d. list_getitem drow (mm' ! i) = Inr d \<and> row ! i = c + d))"
      by (elim exE conjE) (rule that)
    from mm' assms(1) have "mm' = mm" by simp
    with u assms(2) have "i < length row \<and>
        (\<exists>target c. list_getitem ?ds (mm ! i) = Inr target \<and>
           resharding_cost target src i = Inr c \<and>
           (case map_of (extra_node_costs s) dst of
              None \<Rightarrow> row ! i = c
            | Some drow \<Rightarrow> \<exists>d. list_getitem drow (mm ! i) = Inr d \<and> row ! i = c + d))"
      by blast
    then obtain target c where il: "i < length row"
      and tg: "list_getitem ?ds (mm ! i) = Inr target"
      and rc: "resharding_cost target src i = Inr c"
      and v: "(case map_of (extra_node_costs s) dst of
        None \<Rightarrow> row ! i = c
      | Some dst_row \<Rightarrow> \<exists>d. list_getitem dst_row (mm ! i) = Inr d \<and> row ! i = c + d)"
      by (elim exE conjE) (rule that)
    from tg neg have nonempty: "?ds \<noteq> []"
      by (auto simp: list_getitem_def)
    with c tg neg have tl: "target = last ?ds" by simp
    from nonempty have lt: "length ?ds - 1 < length ?ds" by simp
    from rc tl nonempty have "resharding_cost (?ds ! (length ?ds - 1)) src i = Inr c"
      by (simp add: last_conv_nth)
    with none[OF neg] lt have "\<not> c < PInf" by blast
    then have cinf: "c = PInf" by (cases c) simp_all
    from v cinf have "row ! i = PInf" by (auto split: option.splits)
    with nonempty rc tl cinf r il show "?ds \<noteq> [] \<and>
          resharding_cost (last ?ds) src i = Inr PInf \<and>
          (\<exists>row. map_of (extra_node_costs s') src = Some row \<and> i < length row \<and>
                 row ! i = PInf)" by blast
  qed
  from a b c d show ?thesis by blast
qed

theorem merge_map_all_infeasible_row_witness:
  "merge_map_of infeasible_graph 0 1 = Inr [- 1, 0] \<and>
   (0::nat) < length (strategies_vector infeasible_graph 0) \<and>
   (1::nat) < length (strategies_vector infeasible_graph 0) \<and>
   length (strategies_vector infeasible_graph 1) = 2 \<and>
   resharding_cost (strategies_vector infeasible_graph 1 ! 0) 0 0 = Inr PInf \<and>
   resharding_cost (strategies_vector infeasible_graph 1 ! 1) 0 0 = Inr PInf \<and>
   resharding_cost (strategies_vector infeasible_graph 1 ! 0) 0 1 = Inr (Fin 1) \<and>
   merge_node infeasible_graph 0 1 = Inr (projr (merge_node infeasible_graph 0 1)) \<and>
   (0::nat) \<noteq> 1 \<and>
   [- 1, 0::int] ! 0 = - 1 \<and>
   list_getitem (strategies_vector infeasible_graph 1) (- 1) =
     Inr (last (strategies_vector infeasible_graph 1)) \<and>
   resharding_cost (last (strategies_vector infeasible_graph 1)) 0 0 = Inr PInf \<and>
   (\<exists>row. map_of (extra_node_costs (projr (merge_node infeasible_graph 0 1))) 0 = Some row \<and>
          0 < length row \<and> row ! 0 = PInf) \<and>
   0 \<le> [- 1, 0::int] ! 1 \<and>
   [- 1, 0::int] ! 1 < int (length (strategies_vector infeasible_graph 1))"
proof -
  let ?ds = "strategies_vector infeasible_graph 1"
  have mm: "merge_map_of infeasible_graph 0 1 = Inr [- 1, 0]" by code_simp
  have i0: "(0::nat) < length (strategies_vector infeasible_graph 0)" by code_simp
  have i1: "(1::nat) < length (strategies_vector infeasible_graph 0)" by code_simp
  have len: "length ?ds = 2" by code_simp
  have r0: "resharding_cost (?ds ! 0) 0 0 = Inr PInf" by code_simp
  have r1: "resharding_cost (?ds ! 1) 0 0 = Inr PInf" by code_simp
  have f: "resharding_cost (?ds ! 0) 0 1 = Inr (Fin 1)" by code_simp
  have m: "merge_node infeasible_graph 0 1 = Inr (projr (merge_node infeasible_graph 0 1))"
    by (rule succeeds_projr) code_simp
  have ne: "(0::nat) \<noteq> 1" by simp
  have neg: "[- 1, 0::int] ! 0 = - 1" by simp
  have nonempty: "?ds \<noteq> []" using len by auto
  have allinf: "\<forall>j<length ?ds. resharding_cost (?ds ! j) 0 0 = Inr PInf"
    using r0 r1 len by (auto simp: less_Suc_eq numeral_2_eq_2)
  have feas: "\<exists>j<length ?ds. \<exists>c. resharding_cost (?ds ! j) 0 1 = Inr c \<and> c < PInf"
    using f len by (intro exI[of _ 0] conjI exI[of _ "Fin 1"]) simp_all
  note t0 = merge_map_all_infeasible_row[OF mm i0, of "projr (merge_node infeasible_graph 0 1)"]
  note t1 = merge_map_all_infeasible_row[OF mm i1, of "projr (merge_node infeasible_graph 0 1)"]
  from t0 nonempty have a: "list_getitem ?ds (- 1) = Inr (last ?ds)" by blast
  from t0 m ne neg have b: "resharding_cost (last ?ds) 0 0 = Inr PInf \<and>
     (\<exists>row. map_of (extra_node_costs (projr (merge_node infeasible_graph 0 1))) 0 = Some row \<and>
          0 < length row \<and> row ! 0 = PInf)" by blast
  from t1 feas have c: "0 \<le> [- 1, 0::int] ! 1 \<and> [- 1, 0::int] ! 1 < int (length ?ds)"
    by blast
  from t0 allinf have "[- 1, 0::int] ! 0 = - 1" by blast
  with mm i0 i1 len r0 r1 f m ne a b c show ?thesis by blast
qed

text \<open>
  C3, as claimed, fails: the merge records the extra costs under the source node, the
  node that stays. After simplifying the chain \<open>0 \<rightarrow> 1 \<rightarrow> 2 \<rightarrow> 3\<close>, node 0 has an entry in
  \<^verbatim>\<open>extra_node_costs\<close>, is not a key of \<^verbatim>\<open>following_dict\<close>, and is the source of the one
  remaining edge \<open>(0, 3)\<close> and the parent of node 3.
\<close>

theorem extra_cost_of_live_node_counterexample:
  "succeeds (simplify_graph chain_graph) \<and>
   map_of (extra_node_costs (projr (simplify_graph chain_graph))) 0 = Some [Fin 2, Fin 5] \<and>
   map_of (following_dict (projr (simplify_graph chain_graph))) 0 = None \<and>
   map fst (edge_costs (projr (simplify_graph chain_graph))) = [(0, 3)] \<and>
   parents (projr (simplify_graph chain_graph)) 3 = [0] \<and>
   children (projr (simplify_graph chain_graph)) 0 = [3]"
  by code_simp

text \<open>
  C3, amended. After \<^verbatim>\<open>simplify_graph\<close> on a graph built with \<^verbatim>\<open>simplify\<close> set, the
  nodes with an entry in \<^verbatim>\<open>extra_node_costs\<close> are the nodes that had one before and the
  first components of the queued merge pairs, that is the source nodes, into which the
  destination nodes are merged.
\<close>

theorem simplify_graph_extra_cost_keys:
  assumes "simplify_graph s = Inr s'" and "simplify s"
  shows "fst ` set (extra_node_costs s') =
           fst ` set (extra_node_costs s) \<union> fst ` set (merge_pair s)"
proof -
  from assms obtain t fd where
    t: "merge_all (rev (merge_pair s)) (s\<lparr>merge_pair := rev (merge_pair s)\<rparr>) = Inr t"
    and s': "s' = t\<lparr>merge_pair := rev (merge_pair t), following_dict := fd\<rparr>"
    by (auto simp: simplify_graph_def Let_def split: sum.splits)
  from merge_all_extra_keys[OF t] s' show ?thesis by simp
qed

theorem simplify_graph_extra_cost_keys_witness:
  "simplify_graph chain_graph = Inr (projr (simplify_graph chain_graph)) \<and>
   simplify chain_graph \<and>
   extra_node_costs chain_graph = [] \<and>
   merge_pair chain_graph = [(0, 1), (1, 2)] \<and>
   fst ` set (extra_node_costs (projr (simplify_graph chain_graph))) = {0, 1}"
proof -
  have r: "simplify_graph chain_graph = Inr (projr (simplify_graph chain_graph))"
    by (rule succeeds_projr) code_simp
  have f: "simplify chain_graph" by code_simp
  have e: "extra_node_costs chain_graph = []" by code_simp
  have q: "merge_pair chain_graph = [(0, 1), (1, 2)]" by code_simp
  from simplify_graph_extra_cost_keys[OF r f] e q
  have "fst ` set (extra_node_costs (projr (simplify_graph chain_graph))) = {0, 1}"
    by auto
  with r f e q show ?thesis by blast
qed

text \<open>
  C2 on the code: nodes 0 and 1 share the child 2. \<^verbatim>\<open>merge_node(0, 1)\<close> returns, the merge
  map sends strategy 0 to strategy 0, the edge \<open>(1, 2)\<close> holds the cost 3 at \<open>(0, 0)\<close>, and
  the entry \<open>(0, 0)\<close> of the edge \<open>(0, 2)\<close> is 7 before the merge and still 7 after it:
  the derived cost is not added.
\<close>

theorem merge_node_shared_child_unchanged:
  "succeeds (merge_node shared_graph 0 1) \<and>
   children shared_graph 1 = [2] \<and>
   merge_map_of shared_graph 0 1 = Inr [0] \<and>
   edge_cost_entry shared_graph 0 2 0 0 = Inr (Fin 7) \<and>
   edge_cost_entry shared_graph 1 2 0 0 = Inr (Fin 3) \<and>
   edge_cost_entry (projr (merge_node shared_graph 0 1)) 0 2 0 0 = Inr (Fin 7) \<and>
   edge_cost_entry (projr (merge_node shared_graph 0 1)) 0 2 0 0 \<noteq> Inr (Fin 7 + Fin 3)"
  by code_simp

text \<open>
  C7. Let the merges of \<^verbatim>\<open>simplify_graph\<close> return the state \<open>t\<close>, with a
  \<^verbatim>\<open>following_dict\<close> whose records form no cycle. Then \<^verbatim>\<open>simplify_graph\<close> returns, and in
  its \<^verbatim>\<open>following_dict\<close> every node recorded in \<open>t\<close> maps to the node reached by following
  the records of \<open>t\<close> to the end; that node has no record, neither in \<open>t\<close> nor in the
  result, and the nodes without a record in \<open>t\<close> have none in the result.
\<close>

theorem simplify_graph_compresses_following_dict:
  assumes "simplify s"
    and "merge_all (rev (merge_pair s)) (s\<lparr>merge_pair := rev (merge_pair s)\<rparr>) = Inr t"
    and "distinct (map fst (following_dict s))"
    and "acyclic {(a, b). map_of (following_dict t) a = Some b}"
  shows "\<exists>s'. simplify_graph s = Inr s' \<and>
     (\<forall>a b. map_of (following_dict t) a = Some b \<longrightarrow>
        (\<exists>r. map_of (following_dict s') a = Some r \<and>
             (b, r) \<in> {(a, b). map_of (following_dict t) a = Some b}\<^sup>* \<and>
             map_of (following_dict t) r = None \<and>
             map_of (following_dict s') r = None)) \<and>
     (\<forall>a. map_of (following_dict t) a = None \<longrightarrow> map_of (following_dict s') a = None)"
proof -
  let ?fd = "following_dict t"
  let ?R = "{(a, b). map_of ?fd a = Some b}"
  have dist: "distinct (map fst ?fd)"
    using merge_all_following_distinct[OF assms(2)] assms(3) by simp
  have total: "\<forall>x. \<exists>r. reindexing_src ?fd x = Some r"
    using reindexing_src_acyclic[OF assms(4)] by blast
  from reindex_items_spec[OF total dist, of "[]"] obtain fd' where
    run: "reindex_items ?fd ?fd [] = Inr fd'"
    and sp: "\<forall>k. map_of fd' k =
        (case map_of ?fd k of None \<Rightarrow> map_of [] k | Some x \<Rightarrow> reindexing_src ?fd x)"
    by (elim exE conjE) (rule that)
  define s' where "s' = t\<lparr>merge_pair := rev (merge_pair t), following_dict := fd'\<rparr>"
  have res: "simplify_graph s = Inr s'"
    using assms(1,2) run by (simp add: simplify_graph_def Let_def s'_def)
  have f': "following_dict s' = fd'" by (simp add: s'_def)
  have none: "\<forall>a. map_of ?fd a = None \<longrightarrow> map_of (following_dict s') a = None"
    using sp f' by simp
  have some: "\<forall>a b. map_of ?fd a = Some b \<longrightarrow>
        (\<exists>r. map_of (following_dict s') a = Some r \<and> (b, r) \<in> ?R\<^sup>* \<and>
             map_of ?fd r = None \<and> map_of (following_dict s') r = None)"
  proof (intro allI impI)
    fix a b assume ab: "map_of ?fd a = Some b"
    from reindexing_src_acyclic[OF assms(4), of b] obtain r where
      r: "reindexing_src ?fd b = Some r" and p: "(b, r) \<in> ?R\<^sup>*" and e: "map_of ?fd r = None"
      by (elim exE conjE) (rule that)
    from sp ab r f' have "map_of (following_dict s') a = Some r" by simp
    moreover from none e have "map_of (following_dict s') r = None" by blast
    ultimately show "\<exists>r. map_of (following_dict s') a = Some r \<and> (b, r) \<in> ?R\<^sup>* \<and>
             map_of ?fd r = None \<and> map_of (following_dict s') r = None"
      using p e by blast
  qed
  from res some none show ?thesis by blast
qed

theorem simplify_graph_compresses_following_dict_witness:
  "simplify chain_graph \<and>
   merge_all (rev (merge_pair chain_graph))
       (chain_graph\<lparr>merge_pair := rev (merge_pair chain_graph)\<rparr>) =
     Inr (projr (merge_all (rev (merge_pair chain_graph))
       (chain_graph\<lparr>merge_pair := rev (merge_pair chain_graph)\<rparr>))) \<and>
   distinct (map fst (following_dict chain_graph)) \<and>
   following_dict (projr (merge_all (rev (merge_pair chain_graph))
       (chain_graph\<lparr>merge_pair := rev (merge_pair chain_graph)\<rparr>))) = [(2, 1), (1, 0)] \<and>
   acyclic {(a, b). map_of [(2, 1), (1, 0::nat)] a = Some (b::nat)} \<and>
   following_dict (projr (simplify_graph chain_graph)) = [(2, 0), (1, 0)] \<and>
   (\<exists>s'. simplify_graph chain_graph = Inr s' \<and>
      (\<exists>r. map_of (following_dict s') 2 = Some r \<and>
           (1, r) \<in> {(a, b). map_of [(2, 1), (1, 0::nat)] a = Some (b::nat)}\<^sup>* \<and>
           map_of [(2, 1), (1, 0::nat)] r = None \<and>
           map_of (following_dict s') r = None))"
proof -
  let ?t = "projr (merge_all (rev (merge_pair chain_graph))
       (chain_graph\<lparr>merge_pair := rev (merge_pair chain_graph)\<rparr>))"
  have f: "simplify chain_graph" by code_simp
  have m: "merge_all (rev (merge_pair chain_graph))
       (chain_graph\<lparr>merge_pair := rev (merge_pair chain_graph)\<rparr>) = Inr ?t"
    by (rule succeeds_projr) code_simp
  have d: "distinct (map fst (following_dict chain_graph))" by code_simp
  have fd: "following_dict ?t = [(2, 1), (1, 0)]" by code_simp
  have ac: "acyclic {(a, b). map_of [(2, 1), (1, 0::nat)] a = Some (b::nat)}"
    by (rule acyclicI_order[where f = "\<lambda>n. n"]) (auto split: if_splits)
  have res: "following_dict (projr (simplify_graph chain_graph)) = [(2, 0), (1, 0)]"
    by code_simp
  have rec: "map_of (following_dict ?t) 2 = Some 1" by (simp add: fd)
  from simplify_graph_compresses_following_dict[OF f m d ac[folded fd]]
  obtain s' where s': "simplify_graph chain_graph = Inr s'"
    and all: "\<forall>a b. map_of (following_dict ?t) a = Some b \<longrightarrow>
        (\<exists>r. map_of (following_dict s') a = Some r \<and>
             (b, r) \<in> {(a, b). map_of (following_dict ?t) a = Some b}\<^sup>* \<and>
             map_of (following_dict ?t) r = None \<and>
             map_of (following_dict s') r = None)"
    by (elim exE conjE) (rule that)
  from all rec have "\<exists>r. map_of (following_dict s') 2 = Some r \<and>
             (1, r) \<in> {(a, b). map_of (following_dict ?t) a = Some b}\<^sup>* \<and>
             map_of (following_dict ?t) r = None \<and>
             map_of (following_dict s') r = None"
    by blast
  then have "\<exists>r. map_of (following_dict s') 2 = Some r \<and>
           (1, r) \<in> {(a, b). map_of [(2, 1), (1, 0::nat)] a = Some (b::nat)}\<^sup>* \<and>
           map_of [(2, 1), (1, 0::nat)] r = None \<and>
           map_of (following_dict s') r = None"
    unfolding fd .
  with s' f m d fd ac res show ?thesis by blast
qed

text \<open>
  C1, as claimed, fails, in three ways.

  Two parents. In the graph \<open>0 \<rightarrow> 2\<close>, \<open>1 \<rightarrow> 2\<close>, \<open>2 \<rightarrow> 3\<close> every node has one strategy,
  so there is one assignment; its cost over the built graph is \<open>1 + 2 + 5 = 8\<close>. Node 2
  is merged into both of its parents: after \<^verbatim>\<open>simplify_graph\<close> the edges \<open>(1, 3)\<close> and
  \<open>(0, 3)\<close> both carry the cost 5 of the edge \<open>(2, 3)\<close>, the selected edge entries add up
  to 10 and the extra node costs (recorded under nodes 0 and 1, none under the absorbed
  node 2) to 3.

  Two children. In the graph \<open>0 \<rightarrow> 1\<close>, \<open>0 \<rightarrow> 2\<close> node 0 absorbs both of its children, each
  of which has node 0 as its only parent. With strategy 1 for node 0 the built graph costs
  \<open>3 + 6 = 9\<close>. The merge of node 2 records \<open>[0, 6]\<close> under node 0; the merge of node 1
  then starts \<^verbatim>\<open>extra_node_costs[0]\<close> afresh (\<^verbatim>\<open>[0.0] * node_lens\<close>) and leaves
  \<open>[4, 3]\<close>: the cost 6 is lost, and the simplified graph costs 3.

  A shared child. In the graph \<open>0 \<rightarrow> 1\<close>, \<open>1 \<rightarrow> 2\<close>, \<open>0 \<rightarrow> 2\<close> the built graph costs
  \<open>1 + 7 + 3 = 11\<close>; the merge of node 1 into node 0 skips the existing pair \<open>(0, 2)\<close>, so
  the cost 3 of the edge \<open>(1, 2)\<close> is lost, and the simplified graph costs 8.
\<close>

theorem simplify_graph_total_cost_counterexample:
  "succeeds (simplify_graph fork_graph) \<and>
   node_lens fork_graph 0 = Some 1 \<and> node_lens fork_graph 1 = Some 1 \<and>
   node_lens fork_graph 2 = Some 1 \<and> node_lens fork_graph 3 = Some 1 \<and>
   extra_node_costs fork_graph = [] \<and>
   total_cost fork_graph zero_assignment = Fin 8 \<and>
   map_of (following_dict (projr (simplify_graph fork_graph))) 2 = Some 0 \<and>
   map_of (extra_node_costs (projr (simplify_graph fork_graph))) 2 = None \<and>
   live_edge_cost (projr (simplify_graph fork_graph)) zero_assignment = Fin 10 \<and>
   extra_cost (projr (simplify_graph fork_graph)) zero_assignment = Fin 3 \<and>
   total_cost (projr (simplify_graph fork_graph)) zero_assignment = Fin 13 \<and>
   succeeds (simplify_graph twin_graph) \<and>
   merge_pair twin_graph = [(0, 1), (0, 2)] \<and>
   parents twin_graph 1 = [0] \<and> parents twin_graph 2 = [0] \<and>
   children twin_graph 1 = [] \<and> children twin_graph 2 = [] \<and>
   merge_map_of twin_graph 0 1 = Inr [0, 0] \<and> merge_map_of twin_graph 0 2 = Inr [0, 0] \<and>
   extra_node_costs twin_graph = [] \<and>
   total_cost twin_graph twin_assignment = Fin 9 \<and>
   extra_node_costs (projr (merge_node twin_graph 0 2)) = [(0, [Fin 0, Fin 6])] \<and>
   extra_node_costs (projr (simplify_graph twin_graph)) = [(0, [Fin 4, Fin 3])] \<and>
   edge_costs (projr (simplify_graph twin_graph)) = [] \<and>
   total_cost (projr (simplify_graph twin_graph)) twin_assignment = Fin 3 \<and>
   succeeds (simplify_graph shared_graph) \<and>
   extra_node_costs shared_graph = [] \<and>
   total_cost shared_graph zero_assignment = Fin 11 \<and>
   total_cost (projr (simplify_graph shared_graph)) zero_assignment = Fin 8"
  by code_simp

text \<open>
  C1, amended. Let \<^verbatim>\<open>simplify_graph\<close> return, every merge it applies being exact for
  the assignment \<open>\<sigma>\<close>: the destination node has the source node as its only parent and
  shares no child with it, the extra cost recorded so far for the source node at its
  strategy is zero or absent, and \<open>\<sigma>\<close> gives the destination node the strategy
  \<^verbatim>\<open>merge_map[\<sigma> src]\<close>. Then the selected entries of the remaining edges plus the extra
  node costs of the nodes that are not absorbed, each at its strategy under \<open>\<sigma>\<close>, add up
  to the same cost as before the call; for a graph as built, that is the sum of the
  selected entries over all its edges.
\<close>

theorem simplify_graph_preserves_total_cost:
  assumes "simplify_graph s = Inr s'" and "simplify s"
    and "exact_run (rev (merge_pair s)) (s\<lparr>merge_pair := rev (merge_pair s)\<rparr>) \<sigma>"
  shows "total_cost s' \<sigma> = total_cost s \<sigma> \<and>
         (extra_node_costs s = [] \<longrightarrow> total_cost s' \<sigma> = live_edge_cost s \<sigma>)"
proof -
  from assms(1,2) obtain t fd where
    t: "merge_all (rev (merge_pair s)) (s\<lparr>merge_pair := rev (merge_pair s)\<rparr>) = Inr t"
    and fd: "reindex_items (following_dict t) (following_dict t) [] = Inr fd"
    and s': "s' = t\<lparr>merge_pair := rev (merge_pair t), following_dict := fd\<rparr>"
    by (auto simp: simplify_graph_def Let_def split: sum.splits)
  have "fst ` set fd = fst ` set (following_dict t)"
    using reindex_items_keys[OF fd] by simp
  then have "total_cost s' \<sigma> = total_cost t \<sigma>"
    by (intro total_cost_cong) (simp_all add: s')
  also have "\<dots> = total_cost (s\<lparr>merge_pair := rev (merge_pair s)\<rparr>) \<sigma>"
    by (rule exact_run_total[OF t assms(3)])
  also have "\<dots> = total_cost s \<sigma>"
    by (intro total_cost_cong) simp_all
  finally have eq: "total_cost s' \<sigma> = total_cost s \<sigma>" .
  moreover have "extra_node_costs s = [] \<longrightarrow> total_cost s \<sigma> = live_edge_cost s \<sigma>"
    by (simp add: total_cost_def extra_cost_def zero_cost_def[symmetric])
  ultimately show ?thesis by simp
qed

theorem simplify_graph_preserves_total_cost_witness:
  "simplify_graph chain_graph = Inr (projr (simplify_graph chain_graph)) \<and>
   simplify chain_graph \<and>
   exact_run (rev (merge_pair chain_graph))
     (chain_graph\<lparr>merge_pair := rev (merge_pair chain_graph)\<rparr>) chain_assignment \<and>
   extra_node_costs chain_graph = [] \<and>
   live_edge_cost chain_graph chain_assignment = Fin 22 \<and>
   total_cost (projr (simplify_graph chain_graph)) chain_assignment = Fin 22 \<and>
   simplify_graph twin_graph = Inr (projr (simplify_graph twin_graph)) \<and>
   simplify twin_graph \<and>
   exact_run (rev (merge_pair twin_graph))
     (twin_graph\<lparr>merge_pair := rev (merge_pair twin_graph)\<rparr>) zero_assignment \<and>
   extra_node_costs twin_graph = [] \<and>
   live_edge_cost twin_graph zero_assignment = Fin 4 \<and>
   total_cost (projr (simplify_graph twin_graph)) zero_assignment = Fin 4"
proof -
  have r: "simplify_graph chain_graph = Inr (projr (simplify_graph chain_graph))"
    by (rule succeeds_projr) code_simp
  have f: "simplify chain_graph" by code_simp
  have x: "exact_run (rev (merge_pair chain_graph))
     (chain_graph\<lparr>merge_pair := rev (merge_pair chain_graph)\<rparr>) chain_assignment"
    by code_simp
  have e: "extra_node_costs chain_graph = []" by code_simp
  have v: "live_edge_cost chain_graph chain_assignment = Fin 22" by code_simp
  from simplify_graph_preserves_total_cost[OF r f x] e
  have "total_cost (projr (simplify_graph chain_graph)) chain_assignment =
        live_edge_cost chain_graph chain_assignment"
    by blast
  with v have a: "total_cost (projr (simplify_graph chain_graph)) chain_assignment = Fin 22"
    by simp
  have r': "simplify_graph twin_graph = Inr (projr (simplify_graph twin_graph))"
    by (rule succeeds_projr) code_simp
  have f': "simplify twin_graph" by code_simp
  have x': "exact_run (rev (merge_pair twin_graph))
     (twin_graph\<lparr>merge_pair := rev (merge_pair twin_graph)\<rparr>) zero_assignment"
    by code_simp
  have e': "extra_node_costs twin_graph = []" by code_simp
  have v': "live_edge_cost twin_graph zero_assignment = Fin 4" by code_simp
  from simplify_graph_preserves_total_cost[OF r' f' x'] e'
  have "total_cost (projr (simplify_graph twin_graph)) zero_assignment =
        live_edge_cost twin_graph zero_assignment"
    by blast
  with v' have b: "total_cost (projr (simplify_graph twin_graph)) zero_assignment = Fin 4"
    by simp
  from r f x e v a r' f' x' e' v' b show ?thesis by blast
qed

end
